theory Spec2Isabelle
  imports Main "HOL-Library.Word"
begin

unbundle bit_operations_syntax

section \<open>Data model of pi_atecc.c\<close>

type_synonym u8 = "8 word"
type_synonym u16 = "16 word"
type_synonym u64 = "64 word"

subsection \<open>Constants of pi_atecc.h and errno.h\<close>

definition ATECC_CMD_SIZE :: nat where "ATECC_CMD_SIZE = 128"
definition ATECC_RESPONSE_SIZE :: nat where "ATECC_RESPONSE_SIZE = 128"
definition ATECC_WAKE_TOKEN :: u8 where "ATECC_WAKE_TOKEN = 0x00"
definition ATECC_CMD_SLEEP :: u8 where "ATECC_CMD_SLEEP = 0x01"
definition ATECC_CMD_READ :: u8 where "ATECC_CMD_READ = 0x02"
definition ATECC_CMD_RANDOM :: u8 where "ATECC_CMD_RANDOM = 0x1B"
definition ATECC_CMD_SHA :: u8 where "ATECC_CMD_SHA = 0x47"
definition ATECC_STATUS_SUCCESS :: u8 where "ATECC_STATUS_SUCCESS = 0x00"
definition ATECC_STATUS_WAKE :: u8 where "ATECC_STATUS_WAKE = 0x11"
definition ATECC_SERIAL_NUMBER_SIZE :: nat where "ATECC_SERIAL_NUMBER_SIZE = 9"
definition ATECC_WORDADDR_CMD :: u8 where "ATECC_WORDADDR_CMD = 0x03"

text \<open>The two errno values the source compares against, and the one it sets, with
  their Linux numbers.\<close>

definition EIO :: int where "EIO = 5"
definition EINVAL :: int where "EINVAL = 22"
definition EREMOTEIO :: int where "EREMOTEIO = 121"

subsection \<open>The bus: \<open>ioctl(fd, I2C_RDWR, ...)\<close> as an explicit environment\<close>

text \<open>
  Every bus access of the source is one \<open>ioctl\<close> call carrying one \<open>i2c_msg\<close>: a write of
  a byte buffer, or a read of a given number of bytes. The outcome of a call is the return
  code, the value of \<open>errno\<close> after it, and (for a read) the bytes that ended up at the start
  of the buffer. The bus state holds the outcome of every call still to come, indexed by
  the number of calls made so far, and the trace of the messages issued.
  The settle delays (\<open>sleep_ms\<close>, \<open>usleep\<close>) carry no data and are left out.
\<close>

record ioctl_reply =
  rc :: int
  err :: int
  rx :: "u8 list"

datatype i2c_msg = I2C_Write "u8 list" | I2C_Read nat

record bus =
  replies :: "nat \<Rightarrow> ioctl_reply"
  trace :: "i2c_msg list"

definition ioctl :: "bus \<Rightarrow> i2c_msg \<Rightarrow> ioctl_reply \<times> bus" where
  "ioctl b m = (replies b (length (trace b)), b\<lparr>trace := trace b @ [m]\<rparr>)"

text \<open>A read of \<open>n\<close> bytes overwrites the start of the (zero-initialised) buffer.\<close>

definition fill :: "u8 list \<Rightarrow> nat \<Rightarrow> u8 list \<Rightarrow> u8 list" where
  "fill buf n bytes = take n bytes @ drop (length (take n bytes)) buf"

subsection \<open>Results\<close>

text \<open>
  The source returns \<open>bool\<close> and tells the failures apart by the message it prints and
  the \<open>errno\<close> it sets. Each \<open>return false\<close> is one constructor here; \<open>Inr\<close> is
  \<open>return true\<close> together with what the call produced.
\<close>

datatype io_dir = Wr | Rd

datatype failure =
    InvalidArgument
  | TransportFailed io_dir
  | InvalidCount u8
  | DeviceStatus u8
  | NoData
  | ShortResponse nat nat
  | CrcFailed
  | InvalidWakeResponse
  | PayloadTooShort
  | UnknownLockState
  | UnexpectedLength u8
  | DivisionTrap

datatype lock_state = FullyLocked | Unlocked | PartiallyLocked

section \<open>Checksum engine\<close>

definition polynom :: u16 where "polynom = 0x8005"

text \<open>The body of the inner loop of \<open>calc_crc16_ccitt\<close>, for one data bit.\<close>

definition crc_step :: "u16 \<Rightarrow> bool \<Rightarrow> u16" where
  "crc_step crc_register data_bit =
     (let crc_bit = (drop_bit 15 crc_register \<noteq> 0);
          shifted = push_bit 1 crc_register
      in if data_bit \<noteq> crc_bit then shifted XOR polynom else shifted)"

text \<open>
  The inner loop: \<open>shift_register\<close> is a \<open>uint8_t\<close> that starts at \<open>0x01\<close>, is shifted
  left once per round and ends the loop when the shift has pushed its bit out.
\<close>

function crc_bits :: "u16 \<Rightarrow> u8 \<Rightarrow> u8 \<Rightarrow> u16" where
  "crc_bits crc_register byte shift_register =
     (if shift_register > 0
      then crc_bits (crc_step crc_register (byte AND shift_register \<noteq> 0)) byte
             (push_bit 1 shift_register)
      else crc_register)"
  by pat_completeness auto
termination
proof (relation "measure (\<lambda>(r, b, s). LEAST n. push_bit n s = (0::u8))")
  show "wf (measure (\<lambda>(r, b, s). LEAST n. push_bit n s = (0::u8)))" by simp
next
  fix crc_register :: u16 and byte shift_register :: u8
  assume pos: "0 < shift_register"
  let ?m = "LEAST n. push_bit n shift_register = 0"
  have z: "push_bit ?m shift_register = 0"
    by (rule LeastI [of _ 8]) simp
  have "?m \<noteq> 0" using z pos by (cases "?m = 0") auto
  then obtain k where k: "?m = Suc k" by (cases ?m) auto
  have "push_bit k (push_bit 1 shift_register) = 0"
    using z k by (simp add: push_bit_push_bit)
  then have "(LEAST n. push_bit n (push_bit 1 shift_register) = 0) \<le> k"
    by (rule Least_le)
  then show "((crc_step crc_register (byte AND shift_register \<noteq> 0), byte,
                push_bit 1 shift_register),
              (crc_register, byte, shift_register))
             \<in> measure (\<lambda>(r, b, s). LEAST n. push_bit n s = (0::u8))"
    using k by simp
qed

text \<open>The outer loop over \<open>data[0 .. length - 1]\<close>, and the little-endian store.\<close>

definition crc_register_of :: "u8 list \<Rightarrow> u16" where
  "crc_register_of bytes = foldl (\<lambda>crc_register byte. crc_bits crc_register byte 0x01) 0 bytes"

definition calc_crc16_ccitt :: "nat \<Rightarrow> u8 list \<Rightarrow> u8 list" where
  "calc_crc16_ccitt len data =
     (let crc_register = crc_register_of (take len data)
      in [ucast (crc_register AND 0x00FF), ucast (drop_bit 8 crc_register)])"

text \<open>\<open>compute_crc\<close> takes its length as a \<open>uint8_t\<close>.\<close>

definition compute_crc :: "u8 \<Rightarrow> u8 list \<Rightarrow> u8 list" where
  "compute_crc len data = calc_crc16_ccitt (unat len) data"

definition validate_crc :: "u8 list \<Rightarrow> nat \<Rightarrow> bool" where
  "validate_crc response len =
     (if len < 3 then False
      else let computed_crc = compute_crc (of_nat (len - 2)) response
           in computed_crc ! 0 = response ! (len - 2) \<and> computed_crc ! 1 = response ! (len - 1))"

text \<open>
  The checksum as section 4.1 of the specification words it: register 0, polynomial
  \<open>0x8005\<close>, the bits of each byte from least to most significant, the polynomial XORed
  into the shifted register when the input bit and the top bit disagree, little-endian
  output.
\<close>

definition crc16_spec_bit :: "u16 \<Rightarrow> bool \<Rightarrow> u16" where
  "crc16_spec_bit reg input_bit =
     (if input_bit \<noteq> bit reg 15 then push_bit 1 reg XOR 0x8005 else push_bit 1 reg)"

definition crc16_spec_byte :: "u16 \<Rightarrow> u8 \<Rightarrow> u16" where
  "crc16_spec_byte reg byte = foldl crc16_spec_bit reg (map (bit byte) [0..<8])"

definition crc16_spec :: "u8 list \<Rightarrow> u8 list" where
  "crc16_spec bytes =
     (let reg = foldl crc16_spec_byte 0 bytes
      in [ucast (take_bit 8 reg), ucast (drop_bit 8 reg)])"

section \<open>Command framer\<close>

text \<open>
  The local array \<open>command\<close> of \<open>send_atecc_cmd\<close> once the checksum is stored in its last
  two bytes. \<open>payload\<close> is what \<open>memcpy\<close> copied (nothing when \<open>data_len\<close> is 0).
\<close>

definition command_frame :: "u8 \<Rightarrow> u8 \<Rightarrow> u16 \<Rightarrow> u8 list \<Rightarrow> u8 \<Rightarrow> u8 list" where
  "command_frame opcode param1 param2 payload data_len =
     (let command = [0x07 + data_len, opcode, param1,
                     ucast (param2 AND 0xFF), ucast (drop_bit 8 param2 AND 0xFF)] @ payload
      in command @ calc_crc16_ccitt (5 + unat data_len) command)"

text \<open>
  \<open>data\<close> is the pointer argument: \<open>None\<close> is \<open>NULL\<close>, \<open>Some d\<close> points at the bytes
  \<open>d\<close>, of which \<open>memcpy\<close> copies the first \<open>data_len\<close> when \<open>data_len > 0\<close> (the
  caller owes at least that many). The unused \<open>resp\<close> and \<open>resp_max\<close> are left out.
\<close>

definition payload_of :: "u8 list option \<Rightarrow> u8 \<Rightarrow> u8 list" where
  "payload_of data data_len =
     (case data of None \<Rightarrow> []
      | Some d \<Rightarrow> if data_len > 0 then take (unat data_len) d else [])"

definition send_atecc_cmd ::
  "bus \<Rightarrow> u8 \<Rightarrow> u8 \<Rightarrow> u16 \<Rightarrow> u8 list option \<Rightarrow> u8 \<Rightarrow> (failure + unit) \<times> bus" where
  "send_atecc_cmd b opcode param1 param2 data data_len =
     (if unat data_len > ATECC_CMD_SIZE - 7 then (Inl InvalidArgument, b)
      else if data_len > 0 \<and> data = None then (Inl InvalidArgument, b)
      else
        let payload = payload_of data data_len;
            command = command_frame opcode param1 param2 payload data_len;
            full_command = ATECC_WORDADDR_CMD # command;
            (r, b') = ioctl b (I2C_Write full_command)
        in if rc r < 0 \<and> err r \<noteq> EIO \<and> err r \<noteq> EREMOTEIO
           then (Inl (TransportFailed Wr), b')
           else (Inr (), b'))"

section \<open>Response reader\<close>

text \<open>
  \<open>buffer\<close> tells whether the output pointer is non-null; \<open>Inr payload\<close> is
  \<open>return true\<close> after \<open>memcpy(buffer, &response[1], length)\<close> stored \<open>payload\<close> there.
  On every \<open>Inl\<close> the output buffer has not been written.
\<close>

definition receive_atecc_response ::
  "bus \<Rightarrow> bool \<Rightarrow> nat \<Rightarrow> bool \<Rightarrow> (failure + u8 list) \<times> bus" where
  "receive_atecc_response b buffer len full_response =
     (if \<not> buffer \<or> len = 0 then (Inl InvalidArgument, b)
      else
        let response0 = replicate ATECC_RESPONSE_SIZE (0::u8);
            read_length0 = (if full_response then len + 3 else len + 1);
            read_length = (if read_length0 > ATECC_RESPONSE_SIZE then ATECC_RESPONSE_SIZE
                           else read_length0);
            (r, b') = ioctl b (I2C_Read read_length)
        in if rc r < 0 \<and> err r \<noteq> EIO \<and> err r \<noteq> EREMOTEIO
           then (Inl (TransportFailed Rd), b')
           else
             let response = fill response0 read_length (rx r);
                 count = response ! 0
             in if count < 4 then (Inl (InvalidCount count), b')
                else if count = 4 then
                  (let status = response ! 1
                   in if status \<noteq> ATECC_STATUS_SUCCESS then (Inl (DeviceStatus status), b')
                      else (Inl NoData, b'))
                else
                  let available = unat count - 1
                  in if available < len then (Inl (ShortResponse len available), b')
                     else (Inr (take len (drop 1 response)), b'))"

section \<open>Session sequencer\<close>

definition atecc_wake :: "bus \<Rightarrow> (failure + unit) \<times> bus" where
  "atecc_wake b =
     (let wake_token = [ATECC_WAKE_TOKEN];
          (r, b1) = ioctl b (I2C_Write wake_token)
      in if rc r < 0 \<and> err r \<noteq> EIO \<and> err r \<noteq> EREMOTEIO
         then (Inl (TransportFailed Wr), b1)
         else
           let (r2, b2) = ioctl b1 (I2C_Read 4)
           in if rc r2 < 0 then (Inl (TransportFailed Rd), b2)
              else
                let response = fill (replicate 4 (0::u8)) 4 (rx r2)
                in if response ! 0 \<noteq> 0x04 \<or> response ! 1 \<noteq> ATECC_STATUS_WAKE
                   then (Inl InvalidWakeResponse, b2)
                   else (Inr (), b2))"

definition atecc_sleep :: "bus \<Rightarrow> (failure + unit) \<times> bus" where
  "atecc_sleep b =
     (let sleep_cmd = ATECC_CMD_SLEEP;
          (r, b') = ioctl b (I2C_Write [sleep_cmd])
      in if rc r < 0 then (Inl (TransportFailed Wr), b') else (Inr (), b'))"

section \<open>Command library\<close>

text \<open>\<open>memcpy(&buf[off], bytes, length bytes)\<close> into a local array.\<close>

definition store :: "u8 list \<Rightarrow> nat \<Rightarrow> u8 list \<Rightarrow> u8 list" where
  "store buf off bytes = take off buf @ bytes @ drop (off + length bytes) buf"

subsection \<open>Serial number\<close>

text \<open>
  \<open>serial_number\<close> is the caller's output buffer (\<open>None\<close> is \<open>NULL\<close>). The result holds
  the outcome (\<open>Inr\<close> carries the identifier the function prints from its local array
  \<open>serial\<close>), the caller's buffer as the call leaves it, and the bus.
\<close>

definition read_atecc_serial_number ::
  "bus \<Rightarrow> u8 list option \<Rightarrow> (failure + u8 list) \<times> u8 list option \<times> bus" where
  "read_atecc_serial_number b serial_number =
     (if serial_number = None then (Inl InvalidArgument, serial_number, b)
      else
        let serial = replicate ATECC_SERIAL_NUMBER_SIZE (0::u8);
            last_response = replicate 4 (0::u8)
        in case send_atecc_cmd b ATECC_CMD_READ 0x00 0x0000 None 0 of
             (Inl e, b1) \<Rightarrow> (Inl e, serial_number, b1)
           | (Inr _, b1) \<Rightarrow>
         (case receive_atecc_response b1 True 4 True of
             (Inl e, b2) \<Rightarrow> (Inl e, serial_number, b2)
           | (Inr p1, b2) \<Rightarrow>
         (let serial = store serial 0 p1
          in case send_atecc_cmd b2 ATECC_CMD_READ 0x00 0x0002 None 0 of
             (Inl e, b3) \<Rightarrow> (Inl e, serial_number, b3)
           | (Inr _, b3) \<Rightarrow>
         (case receive_atecc_response b3 True 4 True of
             (Inl e, b4) \<Rightarrow> (Inl e, serial_number, b4)
           | (Inr p2, b4) \<Rightarrow>
         (let serial = store serial 4 p2
          in case send_atecc_cmd b4 ATECC_CMD_READ 0x00 0x0003 None 0 of
             (Inl e, b5) \<Rightarrow> (Inl e, serial_number, b5)
           | (Inr _, b5) \<Rightarrow>
         (case receive_atecc_response b5 True 4 True of
             (Inl e, b6) \<Rightarrow> (Inl e, serial_number, b6)
           | (Inr p3, b6) \<Rightarrow>
         (let last_response = store last_response 0 p3;
              serial = serial[8 := last_response ! 0]
          in (Inr serial, serial_number, b6))))))))"

subsection \<open>Random numbers\<close>

text \<open>
  \<open>random_bytes\<close> points at (at least) 8 bytes. The arithmetic is \<open>uint64_t\<close>; the
  remainder by zero traps, which is \<open>None\<close>.
\<close>

definition map_random_to_range :: "u8 list \<Rightarrow> u64 \<Rightarrow> u64 \<Rightarrow> u64 option" where
  "map_random_to_range random_bytes minv maxv =
     (let random_value =
            foldl (\<lambda>random_value i. push_bit 8 random_value OR ucast (random_bytes ! i))
              (0::u64) [0..<8]
      in if maxv - minv + 1 = 0 then None
         else Some (minv + random_value mod (maxv - minv + 1)))"

text \<open>\<open>Inr\<close> carries the mapped value the function prints.\<close>

definition genrate_random_number_in_range ::
  "bus \<Rightarrow> u64 \<Rightarrow> u64 \<Rightarrow> (failure + u64) \<times> bus" where
  "genrate_random_number_in_range b minv maxv =
     (let resp = replicate 32 (0::u8)
      in case send_atecc_cmd b ATECC_CMD_RANDOM 0x00 0x0000 None 0 of
           (Inl e, b1) \<Rightarrow> (Inl e, b1)
         | (Inr _, b1) \<Rightarrow>
       (case receive_atecc_response b1 True (length resp) True of
           (Inl e, b2) \<Rightarrow> (Inl e, b2)
         | (Inr payload, b2) \<Rightarrow>
       (let resp = store resp 0 payload
        in case map_random_to_range (drop 1 resp) minv maxv of
             None \<Rightarrow> (Inl DivisionTrap, b2)
           | Some mapped_value \<Rightarrow> (Inr mapped_value, b2))))"

text \<open>
  The range mapping as the specification words it, over the naturals: the eight bytes as
  a big-endian integer, reduced modulo the size of the range and offset by its lower end.
\<close>

definition be64_spec :: "u8 list \<Rightarrow> nat" where
  "be64_spec bytes = sum_list (map (\<lambda>i. unat (bytes ! i) * 256 ^ (7 - i)) [0..<8])"

definition range_map_spec :: "u8 list \<Rightarrow> nat \<Rightarrow> nat \<Rightarrow> nat" where
  "range_map_spec bytes lo hi = lo + be64_spec bytes mod (hi - lo + 1)"

subsection \<open>Streaming hash\<close>

text \<open>
  The \<open>while\<close> loop of \<open>compute_sha256\<close>; it returns the final \<open>offset\<close>. The loop keeps
  \<open>offset \<le> data_len\<close>, so the \<open>size_t\<close> subtraction never wraps.
\<close>

function sha_update_loop :: "bus \<Rightarrow> u8 list \<Rightarrow> nat \<Rightarrow> nat \<Rightarrow> (failure + nat) \<times> bus" where
  "sha_update_loop b data data_len offset =
     (if data_len - offset \<ge> 64 then
        (case send_atecc_cmd b ATECC_CMD_SHA 0x01 0x0000 (Some (drop offset data)) 64 of
           (Inl e, b') \<Rightarrow> (Inl e, b')
         | (Inr _, b') \<Rightarrow> sha_update_loop b' data data_len (offset + 64))
      else (Inr offset, b))"
  by pat_completeness auto
termination
  by (relation "measure (\<lambda>(b, data, data_len, offset). data_len - offset)") auto

declare sha_update_loop.simps [simp del]

text \<open>
  \<open>data\<close> is the input pointer with its length \<open>data_len\<close>, \<open>output\<close> tells whether the
  digest pointer is non-null; \<open>Inr\<close> carries the 32 bytes copied to it. \<open>bytes_at\<close> is the
  memory a pointer gives access to (none through \<open>NULL\<close>).
\<close>

definition bytes_at :: "u8 list option \<Rightarrow> u8 list" where
  "bytes_at data = (case data of None \<Rightarrow> [] | Some d \<Rightarrow> d)"

definition compute_sha256 ::
  "bus \<Rightarrow> u8 list option \<Rightarrow> nat \<Rightarrow> bool \<Rightarrow> (failure + u8 list) \<times> bus" where
  "compute_sha256 b data data_len output =
     (if \<not> output \<or> (data = None \<and> data_len \<noteq> 0) then (Inl InvalidArgument, b)
      else
        case send_atecc_cmd b ATECC_CMD_SHA 0x00 0x0000 None 0 of
          (Inl e, b1) \<Rightarrow> (Inl e, b1)
        | (Inr _, b1) \<Rightarrow>
       (case sha_update_loop b1 (bytes_at data) data_len 0 of
          (Inl e, b2) \<Rightarrow> (Inl e, b2)
        | (Inr offset, b2) \<Rightarrow>
       (let remaining = (of_nat (data_len - offset) :: u8);
            final_block = (if remaining > 0 then Some (drop offset (bytes_at data)) else None)
        in case send_atecc_cmd b2 ATECC_CMD_SHA 0x02 (ucast remaining) final_block remaining of
             (Inl e, b3) \<Rightarrow> (Inl e, b3)
           | (Inr _, b3) \<Rightarrow>
          (let (r, b4) = ioctl b3 (I2C_Read 35)
           in if rc r < 0 then (Inl (TransportFailed Rd), b4)
              else
                let response = fill (replicate 35 (0::u8)) 35 (rx r);
                    count = response ! 0
                in if count \<noteq> 0x23 \<or> unat count > 35 \<or> count < 3
                   then (Inl (InvalidCount count), b4)
                   else if \<not> validate_crc response (unat count) then (Inl CrcFailed, b4)
                   else (Inr (take 32 (drop 1 response)), b4)))))"

subsection \<open>Lock status\<close>

definition check_lock_status :: "bus \<Rightarrow> (failure + lock_state) \<times> bus" where
  "check_lock_status b =
     (let expected_address = (0x15::u8)
      in case send_atecc_cmd b ATECC_CMD_READ 0x00 (ucast expected_address) None 0 of
           (Inl e, b1) \<Rightarrow> (Inl e, b1)
         | (Inr _, b1) \<Rightarrow>
        (let (r, b2) = ioctl b1 (I2C_Read 7)
         in if rc r < 0 \<and> err r \<noteq> EIO \<and> err r \<noteq> EREMOTEIO
            then (Inl (TransportFailed Rd), b2)
            else
              let raw = fill (replicate 7 (0::u8)) 7 (rx r);
                  count = raw ! 0
              in if unat count > 7 \<or> count < 4 then (Inl (InvalidCount count), b2)
                 else if \<not> validate_crc raw (unat count) then (Inl CrcFailed, b2)
                 else
                   let data_len = unat count - 3
                   in if data_len < 4 then (Inl PayloadTooShort, b2)
                      else
                        let lock_bytes = take 4 (drop 1 raw);
                            lock_config = lock_bytes ! 0;
                            lock_value = lock_bytes ! 1
                        in if lock_config = 0x00 \<and> lock_value = 0x00
                           then (Inr FullyLocked, b2)
                           else if lock_config = 0x55 \<and> lock_value = 0x55
                           then (Inr Unlocked, b2)
                           else if lock_config = 0x00 \<and> lock_value = 0x55
                           then (Inr PartiallyLocked, b2)
                           else (Inl UnknownLockState, b2)))"

subsection \<open>Block cipher response\<close>

definition AES_BLOCK_SIZE :: nat where "AES_BLOCK_SIZE = 16"
definition AES_RESPONSE_SIZE :: nat where "AES_RESPONSE_SIZE = 1 + AES_BLOCK_SIZE + 2"

text \<open>\<open>fd\<close> is the descriptor the function checks; \<open>output_data\<close> tells whether the
  output pointer is non-null.\<close>

definition receive_aes_response :: "bus \<Rightarrow> int \<Rightarrow> bool \<Rightarrow> (failure + u8 list) \<times> bus" where
  "receive_aes_response b fd output_data =
     (if fd < 0 \<or> \<not> output_data then (Inl InvalidArgument, b)
      else
        let (r, b') = ioctl b (I2C_Read AES_RESPONSE_SIZE)
        in if rc r < 0 \<and> err r \<noteq> EIO \<and> err r \<noteq> EREMOTEIO
           then (Inl (TransportFailed Rd), b')
           else
             let response = fill (replicate AES_RESPONSE_SIZE (0::u8)) AES_RESPONSE_SIZE (rx r);
                 count = response ! 0
             in if count < 4 then (Inl (InvalidCount count), b')
                else if count = 4 then (Inl (DeviceStatus (response ! 1)), b')
                else if unat count > AES_RESPONSE_SIZE then (Inl (UnexpectedLength count), b')
                else if unat count \<noteq> AES_RESPONSE_SIZE then (Inl (UnexpectedLength count), b')
                else if \<not> validate_crc response (unat count) then (Inl CrcFailed, b')
                else (Inr (take AES_BLOCK_SIZE (drop 1 response)), b'))"

section \<open>Vocabulary of the properties\<close>

text \<open>Flipping bit \<open>k\<close> of byte \<open>i\<close> of a frame.\<close>

definition flip_bit :: "u8 list \<Rightarrow> nat \<Rightarrow> nat \<Rightarrow> u8 list" where
  "flip_bit frame i k = frame[i := (frame ! i) XOR push_bit k 1]"

text \<open>One phase of the streaming hash as it appears on the bus.\<close>

definition sha_phase :: "u8 \<Rightarrow> u16 \<Rightarrow> u8 list \<Rightarrow> i2c_msg" where
  "sha_phase phase param2 payload =
     I2C_Write (ATECC_WORDADDR_CMD #
       command_frame ATECC_CMD_SHA phase param2 payload (of_nat (length payload)))"

text \<open>All the phases of hashing the input \<open>d\<close>, in order.\<close>

definition sha_phases :: "u8 list \<Rightarrow> i2c_msg list" where
  "sha_phases d =
     sha_phase 0x00 0x0000 []
     # map (\<lambda>j. sha_phase 0x01 0x0000 (take 64 (drop (64 * j) d))) [0..<length d div 64]
     @ [sha_phase 0x02 (of_nat (length d mod 64)) (drop (64 * (length d div 64)) d)]"

text \<open>
  The two rules the source applies to the outcome of a bus transaction: the one that lets
  \<open>EIO\<close> and \<open>EREMOTEIO\<close> pass, and the one that lets nothing pass.
\<close>

definition fatal_unless_transient :: "ioctl_reply \<Rightarrow> bool" where
  "fatal_unless_transient r = (rc r < 0 \<and> err r \<noteq> EIO \<and> err r \<noteq> EREMOTEIO)"

definition fatal_always :: "ioctl_reply \<Rightarrow> bool" where
  "fatal_always r = (rc r < 0)"

text \<open>The outcome of the \<open>n\<close>-th transaction after the current state of the bus.\<close>

definition reply_at :: "bus \<Rightarrow> nat \<Rightarrow> ioctl_reply" where
  "reply_at b n = replies b (length (trace b) + n)"

text \<open>
  What \<open>check_lock_status\<close> has in \<open>raw\<close> after its read (the second transaction of the
  call), and the condition under which the exchange itself went well: neither transaction
  failed fatally, the response announces 7 bytes and its checksum is right.
\<close>

definition lock_response :: "bus \<Rightarrow> u8 list" where
  "lock_response b = fill (replicate 7 (0::u8)) 7 (rx (reply_at b 1))"

definition lock_read_ok :: "bus \<Rightarrow> bool" where
  "lock_read_ok b =
     (\<not> fatal_unless_transient (reply_at b 0) \<and> \<not> fatal_unless_transient (reply_at b 1)
      \<and> lock_response b ! 0 = 0x07 \<and> validate_crc (lock_response b) 7)"

text \<open>
  The four payload bytes of a 7-byte response (count, four bytes, checksum) that arrives
  as the \<open>j\<close>-th transaction after the current state of the bus.
\<close>

definition read_payload4 :: "bus \<Rightarrow> nat \<Rightarrow> u8 list" where
  "read_payload4 b j =
     take 4 (drop 1 (fill (replicate ATECC_RESPONSE_SIZE (0::u8)) 7 (rx (reply_at b j))))"

text \<open>
  What \<open>receive_atecc_response\<close> has in \<open>response\<close> after its read, the first transaction
  of the call: the zeroed array overwritten by the bytes read.
\<close>

definition response_buffer :: "bus \<Rightarrow> nat \<Rightarrow> bool \<Rightarrow> u8 list" where
  "response_buffer b len full_response =
     fill (replicate ATECC_RESPONSE_SIZE (0::u8))
       (if (if full_response then len + 3 else len + 1) > ATECC_RESPONSE_SIZE
        then ATECC_RESPONSE_SIZE else (if full_response then len + 3 else len + 1))
       (rx (reply_at b 0))"

text \<open>Buses with a fixed script of outcomes, for concrete runs.\<close>

definition ok_reply :: "u8 list \<Rightarrow> ioctl_reply" where
  "ok_reply bytes = \<lparr>rc = 0, err = 0, rx = bytes\<rparr>"

definition failed_reply :: "int \<Rightarrow> ioctl_reply" where
  "failed_reply e = \<lparr>rc = - 1, err = e, rx = []\<rparr>"

definition script :: "ioctl_reply list \<Rightarrow> bus" where
  "script rs = \<lparr>replies = (\<lambda>n. if n < length rs then rs ! n else ok_reply []), trace = []\<rparr>"

section \<open>Properties of the checksum engine\<close>


lemma crc_bit_msb: "(drop_bit 15 (r::u16) \<noteq> 0) = bit r 15"
proof -
  have "(drop_bit 15 r = 0) = (\<not> bit r 15)"
  proof
    assume "drop_bit 15 r = 0"
    then have "\<not> bit (drop_bit 15 r) 0" by simp
    then show "\<not> bit r 15" by (simp add: bit_drop_bit_eq)
  next
    assume n: "\<not> bit r 15"
    show "drop_bit 15 r = 0"
    proof (rule bit_eqI)
      fix n assume "possible_bit TYPE(u16) n"
      show "bit (drop_bit 15 r) n = bit (0::u16) n"
      proof (cases n)
        case 0 then show ?thesis using n by (simp add: bit_drop_bit_eq)
      next
        case (Suc m)
        then have "\<not> bit r (15 + n)" by (auto dest: bit_imp_le_length)
        then show ?thesis by (simp add: bit_drop_bit_eq)
      qed
    qed
  qed
  then show ?thesis by simp
qed

lemma crc_step_alt:
  "crc_step r d = (if d \<noteq> bit r 15 then push_bit 1 r XOR polynom else push_bit 1 r)"
  by (simp add: crc_step_def Let_def crc_bit_msb)

lemma crc_step_spec: "crc_step r d = crc16_spec_bit r d"
  by (simp add: crc_step_alt crc16_spec_bit_def polynom_def)

lemma mask_bit:
  "((b::u8) AND 1 \<noteq> 0) = bit b 0" "(b AND 2 \<noteq> 0) = bit b 1"
  "(b AND 4 \<noteq> 0) = bit b 2" "(b AND 8 \<noteq> 0) = bit b 3"
  "(b AND 16 \<noteq> 0) = bit b 4" "(b AND 32 \<noteq> 0) = bit b 5"
  "(b AND 64 \<noteq> 0) = bit b 6" "(b AND 128 \<noteq> 0) = bit b 7"
  using bit_iff_and_push_bit_not_eq_0 [of b 0] bit_iff_and_push_bit_not_eq_0 [of b 1]
    bit_iff_and_push_bit_not_eq_0 [of b 2] bit_iff_and_push_bit_not_eq_0 [of b 3]
    bit_iff_and_push_bit_not_eq_0 [of b 4] bit_iff_and_push_bit_not_eq_0 [of b 5]
    bit_iff_and_push_bit_not_eq_0 [of b 6] bit_iff_and_push_bit_not_eq_0 [of b 7]
  by simp_all

lemma upt8: "[0..<8] = [0, 1, 2, 3, 4, 5, 6, 7]"
  by (simp add: upt_rec)

lemma crc_bits_unroll:
  "crc_bits r b 1 = foldl crc_step r (map (bit b) [0..<8])"
  unfolding upt8
  apply (subst crc_bits.simps, simp)+
  apply (simp add: mask_bit)
  done

lemma crc_bits_spec: "crc_bits r b 1 = crc16_spec_byte r b"
proof -
  have "crc_step = crc16_spec_bit" by (intro ext) (rule crc_step_spec)
  then show ?thesis by (simp only: crc_bits_unroll crc16_spec_byte_def)
qed

lemma crc_register_spec: "crc_register_of bytes = foldl crc16_spec_byte 0 bytes"
proof -
  have "(\<lambda>r b. crc_bits r b 1) = crc16_spec_byte" by (intro ext) (rule crc_bits_spec)
  then show ?thesis by (simp only: crc_register_of_def)
qed

lemma low_byte: "(r::u16) AND 0xFF = take_bit 8 r"
  by (simp add: take_bit_eq_mask mask_eq_exp_minus_1)

text \<open>
  Claim C1. The checksum the source computes is the bit-serial CRC of the specification:
  register 0, polynomial 0x8005, bits of each byte least-significant first, the polynomial
  XORed into the left-shifted register exactly when the input bit and the top bit of the
  register disagree, the result stored low byte first. The empty input gives 00 00, and
  the five bytes 07 00 00 00 00 give the trailer 03 AD.
\<close>

theorem calc_crc16_ccitt_spec:
  "calc_crc16_ccitt n data = crc16_spec (take n data)
   \<and> calc_crc16_ccitt 0 [] = [0x00, 0x00]
   \<and> calc_crc16_ccitt 5 [0x07, 0x00, 0x00, 0x00, 0x00] = [0x03, 0xAD]"
proof (intro conjI)
  show "calc_crc16_ccitt n data = crc16_spec (take n data)"
    by (simp add: calc_crc16_ccitt_def crc16_spec_def crc_register_spec low_byte Let_def)
  show "calc_crc16_ccitt 0 [] = [0x00, 0x00]"
    by (simp add: calc_crc16_ccitt_def crc_register_of_def)
  show "calc_crc16_ccitt 5 [0x07, 0x00, 0x00, 0x00, 0x00] = [0x03, 0xAD]"
    by code_simp
qed

theorem calc_crc16_ccitt_spec_witness:
  "calc_crc16_ccitt 3 [0x07, 0x12, 0x34, 0x00, 0x00] = [0x6D, 0x3D]"
proof -
  have "calc_crc16_ccitt 3 [0x07, 0x12, 0x34, 0x00, 0x00]
        = crc16_spec (take 3 [0x07, 0x12, 0x34, 0x00, 0x00])"
    using calc_crc16_ccitt_spec [of 3 "[0x07, 0x12, 0x34, 0x00, 0x00]"] by (rule conjunct1)
  also have "\<dots> = [0x6D, 0x3D]" by code_simp
  finally show ?thesis .
qed

section \<open>Single-bit errors and the checksum\<close>

lemma bit_dbl: "bit ((r::u16) * 2) n = (n \<noteq> 0 \<and> n < 16 \<and> bit r (n - 1))"
proof -
  have "r * 2 = 2 * r" by simp
  then show ?thesis using bit_double_iff [of r n] by (simp only: possible_bit_word) auto
qed

lemma crc_step_bit0: "bit (crc_step r d) 0 = (d \<noteq> bit r 15)"
  using bit_dbl [of r 0] by (simp add: crc_step_alt polynom_def bit_xor_iff)

lemma push1_inj:
  assumes e: "push_bit 1 (s::u16) = push_bit 1 t" and m: "bit s 15 = bit t 15"
  shows "s = t"
proof (rule bit_eqI)
  fix n
  assume "possible_bit TYPE(u16) n"
  then have n: "n < 16" by (simp add: possible_bit_def)
  show "bit s n = bit t n"
  proof (cases "n = 15")
    case True then show ?thesis using m by simp
  next
    case False
    then have "Suc n < 16" using n by simp
    moreover have "bit (push_bit 1 s) (Suc n) = bit (push_bit 1 t) (Suc n)" using e by simp
    ultimately show ?thesis by (simp add: bit_dbl)
  qed
qed

lemma crc_step_inj:
  assumes e: "crc_step s d = crc_step t d"
  shows "s = t"
proof -
  from e have "bit (crc_step s d) 0 = bit (crc_step t d) 0" by simp
  then have m: "bit s 15 = bit t 15" by (auto simp add: crc_step_bit0)
  have "crc_step s d XOR (if d \<noteq> bit s 15 then polynom else 0) = push_bit 1 s"
       "crc_step t d XOR (if d \<noteq> bit t 15 then polynom else 0) = push_bit 1 t"
    by (simp_all add: crc_step_alt xor.assoc)
  with e m have "push_bit 1 s = push_bit 1 t" by (simp only:)
  then show "s = t" using m by (rule push1_inj)
qed

lemma crc_step_flip: "crc_step s (\<not> d) \<noteq> crc_step s d"
proof
  assume "crc_step s (\<not> d) = crc_step s d"
  then have "bit (crc_step s (\<not> d)) 0 = bit (crc_step s d) 0" by simp
  then show False by (auto simp add: crc_step_bit0)
qed

text \<open>One changed element in a left fold whose step is injective in the state and
  separates the two elements.\<close>

lemma foldl_inj:
  assumes inj: "\<And>s t x. f s x = f t x \<Longrightarrow> s = t"
  shows "foldl f s xs = foldl f t xs \<Longrightarrow> s = t"
proof (induction xs arbitrary: s t)
  case Nil then show ?case by simp
next
  case (Cons x xs)
  then have "f s x = f t x" by simp
  then show ?case by (rule inj)
qed

lemma foldl_one_changed:
  assumes inj: "\<And>s t x. f s x = f t x \<Longrightarrow> s = t"
    and sep: "\<And>s. f s a \<noteq> f s a'"
  shows "foldl f s (xs @ a # ys) \<noteq> foldl f s (xs @ a' # ys)"
proof
  assume "foldl f s (xs @ a # ys) = foldl f s (xs @ a' # ys)"
  then have e: "foldl f (f (foldl f s xs) a) ys = foldl f (f (foldl f s xs) a') ys" by simp
  have "f (foldl f s xs) a = f (foldl f s xs) a'" using inj e by (rule foldl_inj)
  then show False using sep by simp
qed

lemma crc_byte_inj:
  assumes "crc_bits s b 1 = crc_bits t b 1"
  shows "s = t"
proof -
  have e: "foldl crc_step s (map (bit b) [0..<8]) = foldl crc_step t (map (bit b) [0..<8])"
    using assms unfolding crc_bits_unroll .
  show ?thesis using crc_step_inj e by (rule foldl_inj)
qed

lemma bits_flipped:
  assumes k: "k < 8"
  shows "map (bit ((b::u8) XOR push_bit k 1)) [0..<8]
         = take k (map (bit b) [0..<8]) @ (\<not> bit b k) # drop (Suc k) (map (bit b) [0..<8])"
proof (rule nth_equalityI)
  show "length (map (bit (b XOR push_bit k 1)) [0..<8])
        = length (take k (map (bit b) [0..<8]) @ (\<not> bit b k) # drop (Suc k) (map (bit b) [0..<8]))"
    using k by simp
next
  fix j assume "j < length (map (bit (b XOR push_bit k 1)) [0..<8])"
  then have j: "j < 8" by simp
  have "bit (b XOR push_bit k 1) j = (bit b j \<noteq> (j = k))"
    using j k by (auto simp add: bit_xor_iff bit_exp_iff)
  then show "map (bit (b XOR push_bit k 1)) [0..<8] ! j
        = (take k (map (bit b) [0..<8]) @ (\<not> bit b k) # drop (Suc k) (map (bit b) [0..<8])) ! j"
    using j k by (auto simp add: nth_append nth_Cons' simp del: upt_Suc)
qed

lemma crc_byte_flip:
  assumes k: "k < 8"
  shows "crc_bits s (b XOR push_bit k 1) 1 \<noteq> crc_bits s b 1"
proof -
  let ?bs = "map (bit b) [0..<8]"
  have split: "?bs = take k ?bs @ bit b k # drop (Suc k) ?bs"
    using k id_take_nth_drop [of k ?bs] by (simp del: upt_Suc)
  have A: "crc_bits s b 1 = foldl crc_step s (take k ?bs @ bit b k # drop (Suc k) ?bs)"
    unfolding crc_bits_unroll by (rule arg_cong [OF split])
  have B: "crc_bits s (b XOR push_bit k 1) 1
           = foldl crc_step s (take k ?bs @ (\<not> bit b k) # drop (Suc k) ?bs)"
    unfolding crc_bits_unroll bits_flipped [OF k] by (rule refl)
  have C: "foldl crc_step s (take k ?bs @ (\<not> bit b k) # drop (Suc k) ?bs)
       \<noteq> foldl crc_step s (take k ?bs @ bit b k # drop (Suc k) ?bs)"
    using crc_step_inj crc_step_flip by (rule foldl_one_changed)
  show ?thesis unfolding A B by (rule C)
qed

lemma crc_register_flip:
  assumes i: "i < length bytes" and k: "k < 8"
  shows "crc_register_of (flip_bit bytes i k) \<noteq> crc_register_of bytes"
proof -
  define f where "f = (\<lambda>r b. crc_bits r b 1)"
  have inj: "\<And>s t x. f s x = f t x \<Longrightarrow> s = t"
    unfolding f_def by (rule crc_byte_inj)
  have sep: "\<And>s. f s (bytes ! i XOR push_bit k 1) \<noteq> f s (bytes ! i)"
    unfolding f_def by (rule crc_byte_flip [OF k])
  have reg: "\<And>xs. crc_register_of xs = foldl f 0 xs"
    by (simp only: crc_register_of_def f_def)
  have a: "bytes = take i bytes @ bytes ! i # drop (Suc i) bytes"
    using i by (rule id_take_nth_drop)
  have b: "flip_bit bytes i k = take i bytes @ (bytes ! i XOR push_bit k 1) # drop (Suc i) bytes"
    using i by (simp add: flip_bit_def upd_conv_take_nth_drop)
  have A: "crc_register_of bytes = foldl f 0 (take i bytes @ bytes ! i # drop (Suc i) bytes)"
    unfolding reg by (rule arg_cong [OF a])
  have B: "crc_register_of (flip_bit bytes i k)
           = foldl f 0 (take i bytes @ (bytes ! i XOR push_bit k 1) # drop (Suc i) bytes)"
    unfolding reg b by (rule refl)
  have C: "foldl f 0 (take i bytes @ (bytes ! i XOR push_bit k 1) # drop (Suc i) bytes)
        \<noteq> foldl f 0 (take i bytes @ bytes ! i # drop (Suc i) bytes)"
    using inj sep by (rule foldl_one_changed)
  show ?thesis unfolding A B by (rule C)
qed


lemma le_store_inj:
  assumes "[ucast ((r::u16) AND 0xFF) :: u8, ucast (drop_bit 8 r)]
           = [ucast (r' AND 0xFF), ucast (drop_bit 8 r')]"
  shows "r = r'"
proof (rule bit_eqI)
  fix n assume "possible_bit TYPE(u16) n"
  then have n: "n < 16" by (simp add: possible_bit_def)
  from assms have lo: "(ucast (take_bit 8 r) :: u8) = ucast (take_bit 8 r')"
    and hi: "(ucast (drop_bit 8 r) :: u8) = ucast (drop_bit 8 r')"
    by (simp_all add: low_byte)
  show "bit r n = bit r' n"
  proof (cases "n < 8")
    case True
    have "bit (ucast (take_bit 8 r) :: u8) n = bit (ucast (take_bit 8 r') :: u8) n"
      using lo by simp
    then show ?thesis using True by (simp add: bit_ucast_iff bit_take_bit_iff)
  next
    case False
    then have m: "n - 8 < 8" "8 + (n - 8) = n" using n by simp_all
    have "bit (ucast (drop_bit 8 r) :: u8) (n - 8) = bit (ucast (drop_bit 8 r') :: u8) (n - 8)"
      using hi by simp
    then show ?thesis using m by (simp add: bit_ucast_iff bit_drop_bit_eq)
  qed
qed

lemma take_flip_bit: "i < n \<Longrightarrow> take n (flip_bit data i k) = flip_bit (take n data) i k"
  by (simp add: flip_bit_def take_update_swap)

lemma calc_crc_flip:
  assumes "i < n" "n \<le> length data" "k < 8"
  shows "calc_crc16_ccitt n (flip_bit data i k) \<noteq> calc_crc16_ccitt n data"
proof
  assume e: "calc_crc16_ccitt n (flip_bit data i k) = calc_crc16_ccitt n data"
  have "crc_register_of (flip_bit (take n data) i k) = crc_register_of (take n data)"
    using e unfolding calc_crc16_ccitt_def Let_def take_flip_bit [OF assms(1)]
    by (rule le_store_inj)
  moreover have "i < length (take n data)" using assms by simp
  ultimately show False using crc_register_flip assms(3) by blast
qed

lemma calc_crc_length: "length (calc_crc16_ccitt n data) = 2"
  by (simp add: calc_crc16_ccitt_def Let_def)

lemma validate_crc_append:
  assumes "length body < 254" "body \<noteq> []"
  shows "validate_crc (body @ [c0, c1]) (length body + 2)
         = (calc_crc16_ccitt (length body) body = [c0, c1])"
proof -
  obtain x y where xy: "calc_crc16_ccitt (length body) body = [x, y]"
    by (simp add: calc_crc16_ccitt_def Let_def)
  have u: "unat (of_nat (length body) :: u8) = length body"
    using assms(1) by (simp add: unat_of_nat)
  have t: "calc_crc16_ccitt (length body) (body @ [c0, c1]) = calc_crc16_ccitt (length body) body"
    by (simp add: calc_crc16_ccitt_def)
  have l: "\<not> length body + 2 < 3" using assms(2) by (cases body) simp_all
  show ?thesis
    unfolding validate_crc_def compute_crc_def using l
    by (simp add: u t xy nth_append)
qed

lemma flip_bit_neq: "i < length xs \<Longrightarrow> k < 8 \<Longrightarrow> flip_bit xs i k \<noteq> xs"
proof
  assume i: "i < length xs" and k: "k < 8" and e: "flip_bit xs i k = xs"
  then have "flip_bit xs i k ! i = xs ! i" by simp
  then have "xs ! i XOR push_bit k 1 = xs ! i" using i by (simp add: flip_bit_def)
  then have "(xs ! i XOR push_bit k 1) XOR xs ! i = xs ! i XOR xs ! i" by simp
  then have "(2 ^ k :: u8) = 0" by (simp add: xor.commute xor.left_commute)
  then show False using k by simp
qed

lemma flip_bit_length: "length (flip_bit xs i k) = length xs"
  by (simp add: flip_bit_def)

lemma framed_round_trip:
  assumes b: "length body < 254" "body \<noteq> []"
    and frame: "frame = body @ calc_crc16_ccitt (length body) body"
  shows "validate_crc frame (length frame)"
    and "i < length frame \<Longrightarrow> k < 8 \<Longrightarrow> \<not> validate_crc (flip_bit frame i k) (length frame)"
proof -
  obtain c0 c1 where c: "calc_crc16_ccitt (length body) body = [c0, c1]"
    by (simp add: calc_crc16_ccitt_def Let_def)
  have fl: "length frame = length body + 2" by (simp add: frame c)
  show "validate_crc frame (length frame)"
    unfolding fl unfolding frame c using validate_crc_append [OF b] c by simp
  assume i: "i < length frame" and k: "k < 8"
  show "\<not> validate_crc (flip_bit frame i k) (length frame)"
  proof (cases "i < length body")
    case True
    then have f: "flip_bit frame i k = flip_bit body i k @ [c0, c1]"
      by (simp add: flip_bit_def frame c list_update_append nth_append)
    have lb: "length (flip_bit body i k) < 254" "flip_bit body i k \<noteq> []"
      using b by (simp_all add: flip_bit_def)
    have "calc_crc16_ccitt (length body) (flip_bit body i k) \<noteq> [c0, c1]"
      using calc_crc_flip [OF True _ k, of body] c by simp
    then show ?thesis
      unfolding fl f using validate_crc_append [OF lb, of c0 c1]
      by (simp add: flip_bit_length)
  next
    case False
    then have f: "flip_bit frame i k = body @ flip_bit [c0, c1] (i - length body) k"
      by (simp add: flip_bit_def frame c list_update_append nth_append)
    have j: "i - length body < length [c0, c1]" using i False fl by simp
    obtain d0 d1 where d: "flip_bit [c0, c1] (i - length body) k = [d0, d1]"
      using flip_bit_length [of "[c0, c1]" "i - length body" k]
      by (cases "flip_bit [c0, c1] (i - length body) k" rule: list.exhaust)
         (auto simp add: length_Suc_conv)
    have "[d0, d1] \<noteq> [c0, c1]" using flip_bit_neq [OF j k] d by simp
    then show ?thesis
      unfolding fl f d using validate_crc_append [OF b, of d0 d1] c by auto
  qed
qed

section \<open>Properties of the command framer\<close>

lemma send_atecc_cmd_invalid:
  assumes "unat data_len > ATECC_CMD_SIZE - 7 \<or> (data_len > 0 \<and> data = None)"
  shows "send_atecc_cmd b opcode param1 param2 data data_len = (Inl InvalidArgument, b)"
  using assms by (auto simp add: send_atecc_cmd_def)

lemma send_atecc_cmd_valid:
  assumes "unat data_len \<le> ATECC_CMD_SIZE - 7" and "data_len > 0 \<Longrightarrow> data \<noteq> None"
  shows "send_atecc_cmd b opcode param1 param2 data data_len =
           (if fatal_unless_transient (reply_at b 0) then Inl (TransportFailed Wr) else Inr (),
            b\<lparr>trace := trace b @ [I2C_Write (ATECC_WORDADDR_CMD #
                   command_frame opcode param1 param2 (payload_of data data_len) data_len)]\<rparr>)"
  using assms
  by (auto simp add: send_atecc_cmd_def ioctl_def fatal_unless_transient_def reply_at_def Let_def)

lemma length_payload_of:
  assumes "data_len > 0 \<Longrightarrow> data \<noteq> None" and "\<And>d. data = Some d \<Longrightarrow> unat data_len \<le> length d"
  shows "length (payload_of data data_len) = unat data_len"
proof (cases data)
  case None
  then have "\<not> data_len > 0" using assms(1) by auto
  then have "data_len = 0" by (simp add: word_greater_zero_iff)
  then show ?thesis using None by (simp add: payload_of_def)
next
  case (Some d)
  show ?thesis
  proof (cases "data_len > 0")
    case True then show ?thesis using Some assms(2) [OF Some] by (simp add: payload_of_def)
  next
    case False
    then have "data_len = 0" by (simp add: word_greater_zero_iff)
    then show ?thesis using Some by (simp add: payload_of_def)
  qed
qed

text \<open>
  Claim C3. For every opcode, param1, param2 and payload within the size limits, the frame
  that \<open>send_atecc_cmd\<close> builds and writes (length prefix, opcode, parameters, payload and
  the two checksum bytes) passes \<open>validate_crc\<close>, and the same frame with any single bit
  flipped does not.
\<close>

theorem command_frame_round_trip:
  assumes size: "unat data_len \<le> ATECC_CMD_SIZE - 7"
    and ptr: "data_len > 0 \<Longrightarrow> data \<noteq> None"
    and buf: "\<And>d. data = Some d \<Longrightarrow> unat data_len \<le> length d"
    and frame: "frame = command_frame opcode param1 param2 (payload_of data data_len) data_len"
  shows "trace (snd (send_atecc_cmd b opcode param1 param2 data data_len))
           = trace b @ [I2C_Write (ATECC_WORDADDR_CMD # frame)]
         \<and> validate_crc frame (length frame)
         \<and> (\<forall>i<length frame. \<forall>k<8. \<not> validate_crc (flip_bit frame i k) (length frame))"
proof -
  let ?body = "[0x07 + data_len, opcode, param1, ucast (param2 AND 0xFF),
                ucast (drop_bit 8 param2 AND 0xFF)] @ payload_of data data_len"
  have pl: "length (payload_of data data_len) = unat data_len"
    using ptr buf by (rule length_payload_of)
  have lb: "length ?body = 5 + unat data_len" using pl by simp
  have b1: "length ?body < 254" using lb size by (simp add: ATECC_CMD_SIZE_def)
  have b2: "?body \<noteq> []" by simp
  have f: "frame = ?body @ calc_crc16_ccitt (length ?body) ?body"
    unfolding frame command_frame_def Let_def lb by (rule refl)
  have "trace (snd (send_atecc_cmd b opcode param1 param2 data data_len))
           = trace b @ [I2C_Write (ATECC_WORDADDR_CMD # frame)]"
    using send_atecc_cmd_valid [OF size ptr] frame by simp
  moreover have "validate_crc frame (length frame)"
    using b1 b2 f by (rule framed_round_trip(1))
  moreover have "\<forall>i<length frame. \<forall>k<8. \<not> validate_crc (flip_bit frame i k) (length frame)"
    using framed_round_trip(2) [OF b1 b2 f] by blast
  ultimately show ?thesis by blast
qed


theorem command_frame_round_trip_witness:
  "trace (snd (send_atecc_cmd (script []) ATECC_CMD_SHA 0x02 0x0002 (Some [0xAB, 0xCD, 0xEF]) 2))
     = [I2C_Write [0x03, 0x09, 0x47, 0x02, 0x02, 0x00, 0xAB, 0xCD, 0x55, 0x0A]]
   \<and> validate_crc [0x09, 0x47, 0x02, 0x02, 0x00, 0xAB, 0xCD, 0x55, 0x0A] 9
   \<and> \<not> validate_crc (flip_bit [0x09, 0x47, 0x02, 0x02, 0x00, 0xAB, 0xCD, 0x55, 0x0A] 6 3) 9"
proof -
  let ?frame = "[0x09, 0x47, 0x02, 0x02, 0x00, 0xAB, 0xCD, 0x55, 0x0A] :: u8 list"
  have size: "unat (2::u8) \<le> ATECC_CMD_SIZE - 7" by (simp add: ATECC_CMD_SIZE_def)
  have ptr: "(2::u8) > 0 \<Longrightarrow> Some [0xAB, 0xCD, 0xEF :: u8] \<noteq> None" by simp
  have buf: "\<And>d. Some [0xAB, 0xCD, 0xEF :: u8] = Some d \<Longrightarrow> unat (2::u8) \<le> length d" by auto
  have frame: "?frame = command_frame ATECC_CMD_SHA 0x02 0x0002
                          (payload_of (Some [0xAB, 0xCD, 0xEF]) 2) 2"
    by code_simp
  have wa: "ATECC_WORDADDR_CMD = 0x03" by (simp add: ATECC_WORDADDR_CMD_def)
  have tr: "trace (script []) = []" by (simp add: script_def)
  have len: "length ?frame = 9" by simp
  note t = command_frame_round_trip [OF size ptr buf frame, of "script []"]
  from t have a: "trace (snd (send_atecc_cmd (script []) ATECC_CMD_SHA 0x02 0x0002
                     (Some [0xAB, 0xCD, 0xEF]) 2)) = [I2C_Write (0x03 # ?frame)]"
    unfolding wa tr by simp
  from t have b: "validate_crc ?frame 9" unfolding len by blast
  from t have "\<forall>i<9. \<forall>k<8. \<not> validate_crc (flip_bit ?frame i k) 9" unfolding len by blast
  then have c: "\<not> validate_crc (flip_bit ?frame 6 3) 9" by simp
  show ?thesis using a b c by simp
qed

text \<open>
  Claim C5, as stated, fails: a payload pointer given together with a declared length of
  zero is not an invalid argument. The pointer is ignored and a frame without payload is
  written.
\<close>

theorem send_atecc_cmd_accepts_unused_pointer:
  "fst (send_atecc_cmd (script []) ATECC_CMD_READ 0x00 0x0000 (Some [0xAA]) 0) = Inr ()
   \<and> trace (snd (send_atecc_cmd (script []) ATECC_CMD_READ 0x00 0x0000 (Some [0xAA]) 0))
       = [I2C_Write [0x03, 0x07, 0x02, 0x00, 0x00, 0x00, 0x1E, 0x2D]]"
  by code_simp

text \<open>
  Claim C5, amended. \<open>send_atecc_cmd\<close> fails with the invalid-argument error exactly
  when the payload length exceeds \<open>ATECC_CMD_SIZE - 7\<close>, or a nonzero length comes with a
  null payload pointer; then the bus is untouched (no frame, no transport call). In every
  other case exactly one frame is written.
\<close>

theorem send_atecc_cmd_invalid_argument:
  "(fst (send_atecc_cmd b opcode param1 param2 data data_len) = Inl InvalidArgument)
     = (unat data_len > ATECC_CMD_SIZE - 7 \<or> (data_len \<noteq> 0 \<and> data = None))
   \<and> (fst (send_atecc_cmd b opcode param1 param2 data data_len) = Inl InvalidArgument
        \<longrightarrow> snd (send_atecc_cmd b opcode param1 param2 data data_len) = b)
   \<and> (fst (send_atecc_cmd b opcode param1 param2 data data_len) \<noteq> Inl InvalidArgument
        \<longrightarrow> trace (snd (send_atecc_cmd b opcode param1 param2 data data_len))
            = trace b @ [I2C_Write (ATECC_WORDADDR_CMD #
                command_frame opcode param1 param2 (payload_of data data_len) data_len)])"
proof (cases "unat data_len > ATECC_CMD_SIZE - 7 \<or> (data_len > 0 \<and> data = None)")
  case True
  then have "unat data_len > ATECC_CMD_SIZE - 7 \<or> (data_len \<noteq> 0 \<and> data = None)"
    by (auto simp add: word_greater_zero_iff)
  then show ?thesis using send_atecc_cmd_invalid [OF True] by simp
next
  case False
  then have size: "unat data_len \<le> ATECC_CMD_SIZE - 7" and ptr: "data_len > 0 \<Longrightarrow> data \<noteq> None"
    by auto
  have "\<not> (unat data_len > ATECC_CMD_SIZE - 7 \<or> (data_len \<noteq> 0 \<and> data = None))"
    using False by (auto simp add: word_greater_zero_iff)
  then show ?thesis using send_atecc_cmd_valid [OF size ptr] by simp
qed

theorem send_atecc_cmd_invalid_argument_witness:
  "fst (send_atecc_cmd (script []) ATECC_CMD_READ 0x00 0x0000 None 5) = Inl InvalidArgument
   \<and> snd (send_atecc_cmd (script []) ATECC_CMD_READ 0x00 0x0000 None 5) = script []
   \<and> fst (send_atecc_cmd (script []) ATECC_CMD_READ 0x00 0x0000 (Some [0x11, 0x22]) 200)
       = Inl InvalidArgument"
proof -
  note t = send_atecc_cmd_invalid_argument
             [where b = "script []" and opcode = ATECC_CMD_READ and ?param1.0 = 0
                and ?param2.0 = 0 and data = None and data_len = 5]
  note u = send_atecc_cmd_invalid_argument
             [where b = "script []" and opcode = ATECC_CMD_READ and ?param1.0 = 0
                and ?param2.0 = 0 and data = "Some [0x11, 0x22]" and data_len = 200]
  have a: "fst (send_atecc_cmd (script []) ATECC_CMD_READ 0x00 0x0000 None 5) = Inl InvalidArgument"
    using t by simp
  then have b: "snd (send_atecc_cmd (script []) ATECC_CMD_READ 0x00 0x0000 None 5) = script []"
    using t by blast
  have c: "fst (send_atecc_cmd (script []) ATECC_CMD_READ 0x00 0x0000 (Some [0x11, 0x22]) 200)
       = Inl InvalidArgument"
    using u by (simp add: ATECC_CMD_SIZE_def)
  show ?thesis using a b c by simp
qed

section \<open>Properties of the response reader\<close>

lemma length_fill: "n \<le> length buf \<Longrightarrow> length (fill buf n bytes) = length buf"
  by (simp add: fill_def min_def)

text \<open>
  Claim C7. With a usable buffer and a read the reader does not give up on, a response
  whose count byte is below 4 fails as an invalid count; a response whose count byte is 4
  fails too, as "no data" when the status byte is 0x00 and as a device status carrying the
  status byte otherwise; and a payload is returned only when the count byte exceeds 4.
\<close>

theorem receive_atecc_response_classifies:
  assumes len: "0 < len"
    and ok: "\<not> fatal_unless_transient (reply_at b 0)"
    and count: "count = response_buffer b len full_response ! 0"
    and status: "status = response_buffer b len full_response ! 1"
  shows "(count < 4 \<longrightarrow>
            fst (receive_atecc_response b True len full_response) = Inl (InvalidCount count))
       \<and> (count = 4 \<and> status = ATECC_STATUS_SUCCESS \<longrightarrow>
            fst (receive_atecc_response b True len full_response) = Inl NoData)
       \<and> (count = 4 \<and> status \<noteq> ATECC_STATUS_SUCCESS \<longrightarrow>
            fst (receive_atecc_response b True len full_response) = Inl (DeviceStatus status))
       \<and> (\<forall>payload. fst (receive_atecc_response b True len full_response) = Inr payload
            \<longrightarrow> count > 4)"
proof -
  define response where "response = response_buffer b len full_response"
  have h: "response ! 0 = count" "response ! 1 = status"
    by (simp_all add: response_def count status)
  have r: "replies b (length (trace b)) = reply_at b 0"
    by (simp add: reply_at_def)
  have nf: "(rc (reply_at b 0) < 0 \<and> err (reply_at b 0) \<noteq> EIO
               \<and> err (reply_at b 0) \<noteq> EREMOTEIO) = False"
    using ok by (simp add: fatal_unless_transient_def)
  have a: "(\<not> True \<or> len = 0) = False" using len by simp
  have e: "fst (receive_atecc_response b True len full_response) =
        (if count < 4 then Inl (InvalidCount count)
         else if count = 4 then
           (if status \<noteq> ATECC_STATUS_SUCCESS then Inl (DeviceStatus status) else Inl NoData)
         else if unat count - 1 < len then Inl (ShortResponse len (unat count - 1))
         else Inr (take len (drop 1 response)))"
    unfolding receive_atecc_response_def ioctl_def Let_def a
    unfolding prod.case r nf response_buffer_def [symmetric] response_def [symmetric] h
    by (simp only: if_False fst_conv if_distrib [of fst] cong: if_cong)
  have gt: "\<not> count < 4 \<Longrightarrow> count \<noteq> 4 \<Longrightarrow> 4 < count"
    by (metis not_less_iff_gr_or_eq)
  show ?thesis unfolding e using gt by (auto split: if_splits)
qed

theorem receive_atecc_response_classifies_witness:
  "fst (receive_atecc_response (script [ok_reply [0x04, 0x0F, 0x23, 0x9A]]) True 16 True)
     = Inl (DeviceStatus 0x0F)
   \<and> fst (receive_atecc_response (script [ok_reply [0x04, 0x00, 0x03, 0x40]]) True 16 True)
     = Inl NoData
   \<and> fst (receive_atecc_response (script [ok_reply [0x03, 0x00, 0x00, 0x00]]) True 16 False)
     = Inl (InvalidCount 0x03)
   \<and> fst (receive_atecc_response (script [failed_reply EIO]) True 16 True)
     = Inl (InvalidCount 0x00)"
proof -
  let ?A = "script [ok_reply [0x04, 0x0F, 0x23, 0x9A]]"
  let ?B = "script [ok_reply [0x04, 0x00, 0x03, 0x40]]"
  let ?C = "script [ok_reply [0x03, 0x00, 0x00, 0x00]]"
  let ?D = "script [failed_reply EIO]"
  have p: "(0::nat) < 16" by simp
  have ok: "\<not> fatal_unless_transient (reply_at ?A 0)" "\<not> fatal_unless_transient (reply_at ?B 0)"
           "\<not> fatal_unless_transient (reply_at ?C 0)" "\<not> fatal_unless_transient (reply_at ?D 0)"
    by (simp_all add: fatal_unless_transient_def reply_at_def script_def ok_reply_def
          failed_reply_def)
  have c: "0x04 = response_buffer ?A 16 True ! 0" "0x04 = response_buffer ?B 16 True ! 0"
          "0x03 = response_buffer ?C 16 False ! 0" "0x00 = response_buffer ?D 16 True ! 0"
    by code_simp+
  have s: "0x0F = response_buffer ?A 16 True ! 1" "0x00 = response_buffer ?B 16 True ! 1"
          "0x00 = response_buffer ?C 16 False ! 1" "0x00 = response_buffer ?D 16 True ! 1"
    by code_simp+
  have z: "ATECC_STATUS_SUCCESS = 0x00" by (simp add: ATECC_STATUS_SUCCESS_def)
  have a: "fst (receive_atecc_response ?A True 16 True) = Inl (DeviceStatus 0x0F)"
    using receive_atecc_response_classifies [OF p ok(1) c(1) s(1)] by (simp add: z)
  have b: "fst (receive_atecc_response ?B True 16 True) = Inl NoData"
    using receive_atecc_response_classifies [OF p ok(2) c(2) s(2)] by (simp add: z)
  have d: "fst (receive_atecc_response ?C True 16 False) = Inl (InvalidCount 0x03)"
    using receive_atecc_response_classifies [OF p ok(3) c(3) s(3)] by simp
  have e: "fst (receive_atecc_response ?D True 16 True) = Inl (InvalidCount 0x00)"
    using receive_atecc_response_classifies [OF p ok(4) c(4) s(4)] by simp
  show ?thesis using a b d e by simp
qed

text \<open>
  Claim C2 at a concrete response. The reader is asked for 4 bytes with the checksum
  included, the device answers 07 AA BB CC DD 00 00, whose last two bytes are not the
  checksum of the first five. The call succeeds and hands AA BB CC DD to the caller: the
  two checksum bytes are read and never compared.
\<close>

theorem receive_atecc_response_ignores_checksum:
  "fst (receive_atecc_response (script [ok_reply [0x07, 0xAA, 0xBB, 0xCC, 0xDD, 0x00, 0x00]])
          True 4 True) = Inr [0xAA, 0xBB, 0xCC, 0xDD]
   \<and> \<not> validate_crc [0x07, 0xAA, 0xBB, 0xCC, 0xDD, 0x00, 0x00] 7"
  by code_simp

theorem receive_atecc_response_ignores_checksum_witness:
  "calc_crc16_ccitt 5 [0x07, 0xAA, 0xBB, 0xCC, 0xDD, 0x00, 0x00] = [0x26, 0x8E]
   \<and> (\<exists>payload. fst (receive_atecc_response
          (script [ok_reply [0x07, 0xAA, 0xBB, 0xCC, 0xDD, 0x00, 0x00]]) True 4 True)
        = Inr payload)"
proof -
  have a: "calc_crc16_ccitt 5 [0x07, 0xAA, 0xBB, 0xCC, 0xDD, 0x00, 0x00] = [0x26, 0x8E]"
    by code_simp
  have "fst (receive_atecc_response
          (script [ok_reply [0x07, 0xAA, 0xBB, 0xCC, 0xDD, 0x00, 0x00]]) True 4 True)
        = Inr [0xAA, 0xBB, 0xCC, 0xDD]"
    using receive_atecc_response_ignores_checksum by (rule conjunct1)
  then show ?thesis using a by blast
qed

section \<open>Properties of the streaming hash\<close>

lemma reply_at_trace:
  "reply_at (b\<lparr>trace := trace b @ ms\<rparr>) j = reply_at b (length ms + j)"
  by (simp add: reply_at_def add.assoc)

lemma sha_update_send:
  assumes "\<not> fatal_unless_transient (reply_at b 0)" and "64 \<le> length d - offset"
  shows "send_atecc_cmd b ATECC_CMD_SHA 0x01 0x0000 (Some (drop offset d)) 64
         = (Inr (), b\<lparr>trace := trace b @ [sha_phase 0x01 0x0000 (take 64 (drop offset d))]\<rparr>)"
proof -
  have size: "unat (64::u8) \<le> ATECC_CMD_SIZE - 7" by (simp add: ATECC_CMD_SIZE_def)
  have ptr: "(64::u8) > 0 \<Longrightarrow> Some (drop offset d) \<noteq> None" by simp
  have p: "payload_of (Some (drop offset d)) 64 = take 64 (drop offset d)"
    by (simp add: payload_of_def)
  have l: "(of_nat (length (take 64 (drop offset d))) :: u8) = 64"
    using assms(2) by (simp add: min_def)
  show ?thesis
    unfolding sha_phase_def l
    using send_atecc_cmd_valid [OF size ptr, of b ATECC_CMD_SHA 1 0] assms(1)
    by (simp add: p)
qed

lemma sha_update_loop_run:
  assumes "\<forall>j<(data_len - offset) div 64. \<not> fatal_unless_transient (reply_at b j)"
    and "length d = data_len"
  shows "sha_update_loop b d data_len offset =
           (Inr (offset + 64 * ((data_len - offset) div 64)),
            b\<lparr>trace := trace b @
                 map (\<lambda>j. sha_phase 0x01 0x0000 (take 64 (drop (offset + 64 * j) d)))
                   [0..<(data_len - offset) div 64]\<rparr>)"
  using assms
proof (induction b d data_len offset rule: sha_update_loop.induct)
  case (1 b d data_len offset)
  show ?case
  proof (cases "64 \<le> data_len - offset")
    case False
    then have "(data_len - offset) div 64 = 0" by simp
    then show ?thesis using False by (simp add: sha_update_loop.simps [of b d data_len offset])
  next
    case True
    define k where "k = (data_len - (offset + 64)) div 64"
    have dv: "(data_len - offset) div 64 = Suc k"
      using le_div_geq [of 64 "data_len - offset"] True by (simp add: k_def)
    let ?b' = "b\<lparr>trace := trace b @ [sha_phase 0x01 0x0000 (take 64 (drop offset d))]\<rparr>"
    have nf0: "\<not> fatal_unless_transient (reply_at b 0)" using "1.prems"(1) dv by simp
    have snd: "send_atecc_cmd b ATECC_CMD_SHA 0x01 0x0000 (Some (drop offset d)) 64 = (Inr (), ?b')"
      using nf0 True "1.prems"(2) by (simp add: sha_update_send)
    have nf': "\<forall>j<(data_len - (offset + 64)) div 64. \<not> fatal_unless_transient (reply_at ?b' j)"
      using "1.prems"(1) dv unfolding k_def [symmetric] by (simp add: reply_at_trace)
    have ih: "sha_update_loop ?b' d data_len (offset + 64) =
           (Inr (offset + 64 + 64 * k),
            ?b'\<lparr>trace := trace ?b' @
                 map (\<lambda>j. sha_phase 0x01 0x0000 (take 64 (drop (offset + 64 + 64 * j) d)))
                   [0..<k]\<rparr>)"
      using "1.IH" [OF True snd [symmetric] refl nf' "1.prems"(2)] unfolding k_def .
    have m: "map (\<lambda>j. sha_phase 0x01 0x0000 (take 64 (drop (offset + 64 * j) d))) [0..<Suc k]
          = sha_phase 0x01 0x0000 (take 64 (drop offset d))
            # map (\<lambda>j. sha_phase 0x01 0x0000 (take 64 (drop (offset + 64 + 64 * j) d))) [0..<k]"
    proof -
      have "[Suc 0..<Suc k] = map Suc [0..<k]" by (simp only: map_Suc_upt)
      then show ?thesis by (simp add: upt_conv_Cons comp_def add.assoc del: upt_Suc)
    qed
    show ?thesis
      unfolding sha_update_loop.simps [of b d data_len offset] dv m
      using True by (simp add: snd ih)
  qed
qed


lemma sha_start_send:
  assumes "\<not> fatal_unless_transient (reply_at b 0)"
  shows "send_atecc_cmd b ATECC_CMD_SHA 0x00 0x0000 None 0
         = (Inr (), b\<lparr>trace := trace b @ [sha_phase 0x00 0x0000 []]\<rparr>)"
proof -
  have size: "unat (0::u8) \<le> ATECC_CMD_SIZE - 7" by simp
  have ptr: "(0::u8) > 0 \<Longrightarrow> (None :: u8 list option) \<noteq> None" by simp
  show ?thesis
    using send_atecc_cmd_valid [OF size ptr, of b ATECC_CMD_SHA 0 0] assms
    by (simp add: payload_of_def sha_phase_def)
qed

lemma sha_end_send:
  assumes nf: "\<not> fatal_unless_transient (reply_at b 0)"
    and d: "length d = n"
    and off: "offset = 64 * (n div 64)"
    and rem: "remaining = (of_nat (n - offset) :: u8)"
  shows "send_atecc_cmd b ATECC_CMD_SHA 0x02 (ucast remaining)
           (if remaining > 0 then Some (drop offset d) else None) remaining
         = (Inr (), b\<lparr>trace := trace b @
              [sha_phase 0x02 (of_nat (n mod 64)) (drop offset d)]\<rparr>)"
proof -
  let ?final = "if remaining > 0 then Some (drop offset d) else None"
  have m: "n - offset = n mod 64" unfolding off by (simp add: minus_mult_div_eq_mod)
  have r: "remaining = of_nat (n mod 64)" using rem m by simp
  have u: "unat remaining = n mod 64"
    unfolding r by (simp add: unat_of_nat mod_mod_cancel)
  have ld: "length (drop offset d) = n mod 64" using d m by simp
  have "n mod 64 < 64" by simp
  then have size: "unat remaining \<le> ATECC_CMD_SIZE - 7"
    unfolding u by (simp add: ATECC_CMD_SIZE_def)
  have ptr: "remaining > 0 \<Longrightarrow> ?final \<noteq> None" by simp
  have p: "payload_of ?final remaining = drop offset d"
  proof (cases "remaining > 0")
    case True then show ?thesis using u ld by (simp add: payload_of_def)
  next
    case False
    then have "remaining = 0" by (simp add: word_greater_zero_iff)
    then have "n mod 64 = 0" using u by simp
    then show ?thesis using False ld by (simp add: payload_of_def)
  qed
  have l: "(of_nat (length (drop offset d)) :: u8) = remaining" unfolding ld r by (rule refl)
  have c: "(ucast remaining :: u16) = of_nat (n mod 64)"
    unfolding r by (simp add: unsigned_of_nat take_bit_nat_eq_self)
  show ?thesis
    unfolding sha_phase_def l c [symmetric]
    using send_atecc_cmd_valid [OF size ptr, of b ATECC_CMD_SHA 2 "ucast remaining"] nf
    by (simp add: p)
qed


lemma compute_sha256_run:
  assumes len: "length (bytes_at data) = n"
    and nf: "\<forall>j \<le> n div 64 + 1. \<not> fatal_unless_transient (reply_at b j)"
  shows "compute_sha256 b data n True =
     (let b4 = b\<lparr>trace := trace b @ sha_phases (bytes_at data) @ [I2C_Read 35]\<rparr>;
          r = reply_at b (n div 64 + 2);
          response = fill (replicate 35 (0::u8)) 35 (rx r);
          count = response ! 0
      in if rc r < 0 then (Inl (TransportFailed Rd), b4)
         else if count \<noteq> 0x23 \<or> unat count > 35 \<or> count < 3 then (Inl (InvalidCount count), b4)
         else if \<not> validate_crc response (unat count) then (Inl CrcFailed, b4)
         else (Inr (take 32 (drop 1 response)), b4))"
proof -
  define d where "d = bytes_at data"
  define b1 where "b1 = b\<lparr>trace := trace b @ [sha_phase 0x00 0x0000 []]\<rparr>"
  define ups where "ups = map (\<lambda>j. sha_phase 0x01 0x0000 (take 64 (drop (64 * j) d))) [0..<n div 64]"
  define b2 where "b2 = b1\<lparr>trace := trace b1 @ ups\<rparr>"
  define fin where "fin = sha_phase 0x02 (of_nat (n mod 64)) (drop (64 * (n div 64)) d)"
  define b3 where "b3 = b2\<lparr>trace := trace b2 @ [fin]\<rparr>"
  have ld: "length d = n" using len by (simp add: d_def)
  have arg: "(\<not> True \<or> data = None \<and> n \<noteq> 0) = False"
    using len by (cases data) (simp_all add: bytes_at_def)
  have nf0: "\<not> fatal_unless_transient (reply_at b 0)" using nf by simp
  have s1: "send_atecc_cmd b ATECC_CMD_SHA 0x00 0x0000 None 0 = (Inr (), b1)"
    unfolding b1_def using nf0 by (rule sha_start_send)
  have nf1: "\<forall>j<(n - 0) div 64. \<not> fatal_unless_transient (reply_at b1 j)"
    using nf unfolding b1_def by (simp add: reply_at_trace)
  have s2: "sha_update_loop b1 d n 0 = (Inr (64 * (n div 64)), b2)"
    using sha_update_loop_run [OF nf1 ld] unfolding b2_def ups_def by simp
  have lu: "length ups = n div 64" by (simp add: ups_def)
  have nf2: "\<not> fatal_unless_transient (reply_at b2 0)"
    using nf unfolding b2_def b1_def by (simp add: reply_at_trace lu)
  have s3: "send_atecc_cmd b2 ATECC_CMD_SHA 0x02 (ucast (of_nat (n - 64 * (n div 64)) :: u8))
           (if (of_nat (n - 64 * (n div 64)) :: u8) > 0 then Some (drop (64 * (n div 64)) d) else None)
           (of_nat (n - 64 * (n div 64))) = (Inr (), b3)"
    unfolding b3_def fin_def using nf2 ld refl refl by (rule sha_end_send)
  have t3: "trace b3 = trace b @ sha_phases d"
    unfolding b3_def b2_def b1_def sha_phases_def ups_def fin_def ld by simp
  have r: "replies b3 (length (trace b3)) = reply_at b (n div 64 + 2)"
    unfolding t3 by (simp add: reply_at_def sha_phases_def ld b3_def b2_def b1_def)
  have b4: "b3\<lparr>trace := trace b3 @ [I2C_Read 35]\<rparr>
            = b\<lparr>trace := trace b @ sha_phases d @ [I2C_Read 35]\<rparr>"
    unfolding t3 by (simp add: b3_def b2_def b1_def)
  show ?thesis
    unfolding compute_sha256_def arg d_def [symmetric]
    by (simp only: if_False s1 s2 s3 prod.case sum.case Let_def ioctl_def r b4)
qed

text \<open>
  Claim C4. With a digest buffer, an input of \<open>n\<close> bytes and no write failing fatally,
  \<open>compute_sha256\<close> puts on the bus exactly: one start phase (mode byte 0, no payload),
  then \<open>n div 64\<close> update phases (mode byte 1), the \<open>j\<close>-th carrying bytes
  \<open>64 j .. 64 j + 63\<close> of the input, then one end phase (mode byte 2) whose payload is the
  last \<open>n mod 64\<close> bytes and whose param2 is that count, and then the read of the 35-byte
  response. A 130-byte input gives two updates of 64 bytes and an end phase of 2 bytes.
\<close>

theorem compute_sha256_phases:
  assumes len: "length (bytes_at data) = n"
    and nf: "\<forall>j \<le> n div 64 + 1. \<not> fatal_unless_transient (reply_at b j)"
  shows "trace (snd (compute_sha256 b data n True))
         = trace b
           @ [sha_phase 0x00 0x0000 []]
           @ map (\<lambda>j. sha_phase 0x01 0x0000 (take 64 (drop (64 * j) (bytes_at data))))
               [0..<n div 64]
           @ [sha_phase 0x02 (of_nat (n mod 64)) (drop (64 * (n div 64)) (bytes_at data))]
           @ [I2C_Read 35]
         \<and> (\<forall>j < n div 64. length (take 64 (drop (64 * j) (bytes_at data))) = 64)
         \<and> length (drop (64 * (n div 64)) (bytes_at data)) = n mod 64"
proof -
  have t: "trace (snd (compute_sha256 b data n True))
           = trace b @ sha_phases (bytes_at data) @ [I2C_Read 35]"
    unfolding compute_sha256_run [OF len nf] Let_def by (simp only: if_distrib [of snd] snd_conv if_cancel bus.simps) simp
  have c: "\<forall>j < n div 64. length (take 64 (drop (64 * j) (bytes_at data))) = 64"
  proof (intro allI impI)
    fix j assume "j < n div 64"
    then have "64 * j + 64 \<le> 64 * (n div 64)" by simp
    also have "\<dots> \<le> n" by simp
    finally show "length (take 64 (drop (64 * j) (bytes_at data))) = 64" using len by simp
  qed
  have e: "length (drop (64 * (n div 64)) (bytes_at data)) = n mod 64"
    using len by (simp add: minus_mult_div_eq_mod)
  show ?thesis using t c e unfolding sha_phases_def len by simp
qed


theorem compute_sha256_phases_witness:
  "trace (snd (compute_sha256 (script []) (Some (map of_nat [0..<130])) 130 True))
     = [sha_phase 0x00 0x0000 [],
        sha_phase 0x01 0x0000 (map of_nat [0..<64]),
        sha_phase 0x01 0x0000 (map of_nat [64..<128]),
        sha_phase 0x02 0x0002 (map of_nat [128..<130]),
        I2C_Read 35]"
proof -
  let ?d = "map of_nat [0..<130] :: u8 list"
  have len: "length (bytes_at (Some ?d)) = 130" by (simp add: bytes_at_def)
  have nf: "\<forall>j \<le> 130 div 64 + 1. \<not> fatal_unless_transient (reply_at (script []) j)"
    by (simp add: fatal_unless_transient_def reply_at_def script_def ok_reply_def)
  have dv: "(130::nat) div 64 = 2" "(130::nat) mod 64 = 2" by simp_all
  have ix: "[0..<2] = [0, Suc 0]" by (simp add: upt_rec)
  have c0: "take 64 (drop (64 * 0) ?d) = map of_nat [0..<64]"
    by (simp add: take_map del: upt_rec_numeral)
  have c1: "take 64 (drop (64 * Suc 0) ?d) = map of_nat [64..<128]"
    by (simp add: take_map drop_map del: upt_rec_numeral)
  have c2: "drop (64 * 2) ?d = map of_nat [128..<130]"
    by (simp add: drop_map del: upt_rec_numeral)
  have tr: "trace (script []) = []" by (simp add: script_def)
  have b: "bytes_at (Some ?d) = ?d" by (simp add: bytes_at_def)
  have "trace (snd (compute_sha256 (script []) (Some ?d) 130 True))
         = trace (script [])
           @ [sha_phase 0x00 0x0000 []]
           @ map (\<lambda>j. sha_phase 0x01 0x0000 (take 64 (drop (64 * j) (bytes_at (Some ?d)))))
               [0..<130 div 64]
           @ [sha_phase 0x02 (of_nat (130 mod 64)) (drop (64 * (130 div 64)) (bytes_at (Some ?d)))]
           @ [I2C_Read 35]"
    using compute_sha256_phases [OF len nf] by (rule conjunct1)
  then show ?thesis
    unfolding dv ix b tr by (simp only: list.map c0 c1 c2 append.simps of_nat_numeral)
qed

section \<open>Properties of the lock status\<close>

lemma lock_send:
  "send_atecc_cmd b ATECC_CMD_READ 0x00 (ucast (0x15::u8)) None 0 =
     (if fatal_unless_transient (reply_at b 0) then Inl (TransportFailed Wr) else Inr (),
      b\<lparr>trace := trace b @ [I2C_Write (ATECC_WORDADDR_CMD #
             command_frame ATECC_CMD_READ 0x00 (ucast (0x15::u8)) [] 0)]\<rparr>)"
proof -
  have size: "unat (0::u8) \<le> ATECC_CMD_SIZE - 7" by simp
  have ptr: "(0::u8) > 0 \<Longrightarrow> (None :: u8 list option) \<noteq> None" by simp
  show ?thesis
    using send_atecc_cmd_valid [OF size ptr, of b ATECC_CMD_READ 0 "ucast (0x15::u8)"]
    by (simp add: payload_of_def)
qed

lemma check_lock_status_fst:
  "fst (check_lock_status b) =
     (if fatal_unless_transient (reply_at b 0) then Inl (TransportFailed Wr)
      else if fatal_unless_transient (reply_at b 1) then Inl (TransportFailed Rd)
      else if unat (lock_response b ! 0) > 7 \<or> lock_response b ! 0 < 4
        then Inl (InvalidCount (lock_response b ! 0))
      else if \<not> validate_crc (lock_response b) (unat (lock_response b ! 0)) then Inl CrcFailed
      else if unat (lock_response b ! 0) - 3 < 4 then Inl PayloadTooShort
      else if lock_response b ! 1 = 0x00 \<and> lock_response b ! 2 = 0x00 then Inr FullyLocked
      else if lock_response b ! 1 = 0x55 \<and> lock_response b ! 2 = 0x55 then Inr Unlocked
      else if lock_response b ! 1 = 0x00 \<and> lock_response b ! 2 = 0x55 then Inr PartiallyLocked
      else Inl UnknownLockState)"
proof (cases "fatal_unless_transient (reply_at b 0)")
  case True
  then show ?thesis unfolding check_lock_status_def Let_def lock_send by simp
next
  case False
  let ?b1 = "b\<lparr>trace := trace b @ [I2C_Write (ATECC_WORDADDR_CMD #
             command_frame ATECC_CMD_READ 0x00 (ucast (0x15::u8)) [] 0)]\<rparr>"
  have r: "replies ?b1 (length (trace ?b1)) = reply_at b 1"
    by (simp add: reply_at_def)
  have f: "(rc (reply_at b 1) < 0 \<and> err (reply_at b 1) \<noteq> EIO \<and> err (reply_at b 1) \<noteq> EREMOTEIO)
           = fatal_unless_transient (reply_at b 1)"
    by (simp add: fatal_unless_transient_def)
  have l: "length (lock_response b) = 7" by (simp add: lock_response_def length_fill)
  have n: "take 4 (drop 1 (lock_response b)) ! 0 = lock_response b ! 1"
          "take 4 (drop 1 (lock_response b)) ! 1 = lock_response b ! 2"
    using l by (simp_all add: numeral_2_eq_2)
  show ?thesis
    unfolding check_lock_status_def Let_def lock_send ioctl_def
    using False
    by (simp only: if_False prod.case sum.case r f lock_response_def [symmetric] n
          if_distrib [of fst] fst_conv cong: if_cong)
qed


lemma lock_count_seven:
  "(\<not> (unat c > 7 \<or> c < 4) \<and> \<not> unat c - 3 < 4) = (c = (0x07::u8))"
proof
  assume "\<not> (unat c > 7 \<or> c < 4) \<and> \<not> unat c - 3 < 4"
  then have "\<not> 7 < unat c" "\<not> unat c - 3 < 4" by simp_all
  then have "unat c = 7" by arith
  then have "unat c = unat (0x07::u8)" by simp
  then show "c = 0x07" by (simp only: word_unat_eq_iff)
next
  assume "c = 0x07"
  then show "\<not> (unat c > 7 \<or> c < 4) \<and> \<not> unat c - 3 < 4"
    by (simp add: word_less_nat_alt)
qed

text \<open>
  Claim C9. \<open>check_lock_status\<close> reports the two lock bytes by the fixed table: (00, 00)
  fully locked, (55, 55) unlocked, (00, 55) partially locked (configuration locked, data
  open), and any other pair as the unknown state. Each of the four outcomes arises exactly
  when the exchange itself went well (no fatal transport error, a 7-byte response with a
  right checksum), so the unknown state is never a transport or checksum failure.
\<close>

theorem check_lock_status_decode_table:
  "(fst (check_lock_status b) = Inr FullyLocked)
     = (lock_read_ok b \<and> lock_response b ! 1 = 0x00 \<and> lock_response b ! 2 = 0x00)
   \<and> (fst (check_lock_status b) = Inr Unlocked)
     = (lock_read_ok b \<and> lock_response b ! 1 = 0x55 \<and> lock_response b ! 2 = 0x55)
   \<and> (fst (check_lock_status b) = Inr PartiallyLocked)
     = (lock_read_ok b \<and> lock_response b ! 1 = 0x00 \<and> lock_response b ! 2 = 0x55)
   \<and> (fst (check_lock_status b) = Inl UnknownLockState)
     = (lock_read_ok b
        \<and> (lock_response b ! 1, lock_response b ! 2) \<noteq> (0x00, 0x00)
        \<and> (lock_response b ! 1, lock_response b ! 2) \<noteq> (0x55, 0x55)
        \<and> (lock_response b ! 1, lock_response b ! 2) \<noteq> (0x00, 0x55))"
proof -
  define c where "c = lock_response b ! 0"
  define f0 where "f0 = fatal_unless_transient (reply_at b 0)"
  define f1 where "f1 = fatal_unless_transient (reply_at b 1)"
  define v where "v = validate_crc (lock_response b) (unat c)"
  define p where "p = lock_response b ! 1"
  define q where "q = lock_response b ! 2"
  have seven: "(\<not> (unat c > 7 \<or> c < 4) \<and> \<not> unat c - 3 < 4) = (c = 0x07)"
    by (rule lock_count_seven)
  have u7: "c = 0x07 \<Longrightarrow> unat c = 7" by simp
  have ok: "lock_read_ok b = (\<not> f0 \<and> \<not> f1 \<and> c = 0x07 \<and> validate_crc (lock_response b) 7)"
    by (simp add: lock_read_ok_def c_def f0_def f1_def)
  have okv: "lock_read_ok b = (\<not> f0 \<and> \<not> f1 \<and> c = 0x07 \<and> v)"
    unfolding ok v_def using u7 by auto
  have e: "fst (check_lock_status b) =
     (if f0 then Inl (TransportFailed Wr)
      else if f1 then Inl (TransportFailed Rd)
      else if unat c > 7 \<or> c < 4 then Inl (InvalidCount c)
      else if \<not> v then Inl CrcFailed
      else if unat c - 3 < 4 then Inl PayloadTooShort
      else if p = 0x00 \<and> q = 0x00 then Inr FullyLocked
      else if p = 0x55 \<and> q = 0x55 then Inr Unlocked
      else if p = 0x00 \<and> q = 0x55 then Inr PartiallyLocked
      else Inl UnknownLockState)"
    unfolding c_def f0_def f1_def v_def p_def q_def by (rule check_lock_status_fst)
  show ?thesis
    unfolding e okv p_def [symmetric] q_def [symmetric] using seven
    by (auto split: if_splits)
qed

theorem check_lock_status_decode_table_witness:
  "fst (check_lock_status
          (script [ok_reply [], ok_reply [0x07, 0x00, 0x00, 0x00, 0x00, 0x03, 0xAD]]))
     = Inr FullyLocked
   \<and> fst (check_lock_status
          (script [ok_reply [], ok_reply [0x07, 0x55, 0x55, 0x00, 0x00, 0x38, 0x2D]]))
     = Inr Unlocked
   \<and> fst (check_lock_status
          (script [ok_reply [], ok_reply [0x07, 0x00, 0x55, 0x00, 0x00, 0x0B, 0xA5]]))
     = Inr PartiallyLocked
   \<and> fst (check_lock_status
          (script [ok_reply [], ok_reply [0x07, 0x12, 0x34, 0x00, 0x00, 0x6E, 0x8F]]))
     = Inl UnknownLockState"
proof -
  let ?A = "script [ok_reply [], ok_reply [0x07, 0x00, 0x00, 0x00, 0x00, 0x03, 0xAD]]"
  let ?B = "script [ok_reply [], ok_reply [0x07, 0x55, 0x55, 0x00, 0x00, 0x38, 0x2D]]"
  let ?C = "script [ok_reply [], ok_reply [0x07, 0x00, 0x55, 0x00, 0x00, 0x0B, 0xA5]]"
  let ?D = "script [ok_reply [], ok_reply [0x07, 0x12, 0x34, 0x00, 0x00, 0x6E, 0x8F]]"
  have ok: "lock_read_ok ?A" "lock_read_ok ?B" "lock_read_ok ?C" "lock_read_ok ?D"
    by code_simp+
  have r: "lock_response ?A ! 1 = 0x00" "lock_response ?A ! 2 = 0x00"
          "lock_response ?B ! 1 = 0x55" "lock_response ?B ! 2 = 0x55"
          "lock_response ?C ! 1 = 0x00" "lock_response ?C ! 2 = 0x55"
          "lock_response ?D ! 1 = 0x12" "lock_response ?D ! 2 = 0x34"
    by code_simp+
  have a: "fst (check_lock_status ?A) = Inr FullyLocked"
    using check_lock_status_decode_table [of ?A] ok(1) r(1,2) by simp
  have b: "fst (check_lock_status ?B) = Inr Unlocked"
    using check_lock_status_decode_table [of ?B] ok(2) r(3,4) by simp
  have c: "fst (check_lock_status ?C) = Inr PartiallyLocked"
    using check_lock_status_decode_table [of ?C] ok(3) r(5,6) by simp
  have d: "fst (check_lock_status ?D) = Inl UnknownLockState"
    using check_lock_status_decode_table [of ?D] ok(4) r(7,8) by simp
  show ?thesis using a b c d by simp
qed

section \<open>Properties of the serial number read\<close>

lemma send_atecc_cmd_read_run:
  "send_atecc_cmd b ATECC_CMD_READ 0x00 p2 None 0 =
     (if fatal_unless_transient (reply_at b 0) then Inl (TransportFailed Wr) else Inr (),
      b\<lparr>trace := trace b @ [I2C_Write (ATECC_WORDADDR_CMD #
             command_frame ATECC_CMD_READ 0x00 p2 [] 0)]\<rparr>)"
proof -
  have size: "unat (0::u8) \<le> ATECC_CMD_SIZE - 7" by simp
  have ptr: "(0::u8) > 0 \<Longrightarrow> (None :: u8 list option) \<noteq> None" by simp
  show ?thesis
    using send_atecc_cmd_valid [OF size ptr, of b ATECC_CMD_READ 0 p2]
    by (simp add: payload_of_def)
qed

text \<open>A successful read of 4 bytes with checksum: what it returns and how it leaves the bus.\<close>

lemma receive4_Inr:
  assumes "receive_atecc_response b True 4 True = (Inr p, b')"
  shows "p = read_payload4 b 0 \<and> b' = b\<lparr>trace := trace b @ [I2C_Read 7]\<rparr>"
  using assms
  unfolding receive_atecc_response_def ioctl_def Let_def reply_at_def read_payload4_def
  by (simp add: ATECC_RESPONSE_SIZE_def split: if_splits)

lemma read_serial_buffer_unchanged:
  "fst (snd (read_atecc_serial_number b serial_number)) = serial_number"
  unfolding read_atecc_serial_number_def Let_def
  by (simp split: prod.splits sum.splits)


lemma read_payload4_length: "length (read_payload4 b j) = 4"
  by (simp add: read_payload4_def length_fill ATECC_RESPONSE_SIZE_def)

lemma read_payload4_after:
  "read_payload4 (b\<lparr>trace := trace b @ ms\<rparr>) j = read_payload4 b (length ms + j)"
  by (simp add: read_payload4_def reply_at_trace)

lemma serial_assembly:
  assumes "length p1 = 4" "length p2 = 4" "length p3 = 4"
  shows "(store (store (replicate ATECC_SERIAL_NUMBER_SIZE 0) 0 p1) 4 p2)
           [8 := store (replicate 4 0) 0 p3 ! 0]
         = p1 @ p2 @ take 1 p3"
proof -
  obtain a b c d where p3: "p3 = [a, b, c, d]"
    using assms(3) by (auto simp add: length_Suc_conv numeral_eq_Suc)
  show ?thesis
    using assms(1,2) by (simp add: store_def ATECC_SERIAL_NUMBER_SIZE_def p3 list_update_append)
qed

lemma read_serial_assembled:
  assumes "fst (read_atecc_serial_number b serial_number) = Inr serial"
  shows "serial = read_payload4 b 1 @ read_payload4 b 3 @ take 1 (read_payload4 b 5)"
proof -
  note sp = send_atecc_cmd_read_run
  from assms obtain u1 b1 p1 b2 u2 b3 p2 b4 u3 b5 p3 b6 where
    s1: "send_atecc_cmd b ATECC_CMD_READ 0x00 0x0000 None 0 = (Inr u1, b1)" and
    r1: "receive_atecc_response b1 True 4 True = (Inr p1, b2)" and
    s2: "send_atecc_cmd b2 ATECC_CMD_READ 0x00 0x0002 None 0 = (Inr u2, b3)" and
    r2: "receive_atecc_response b3 True 4 True = (Inr p2, b4)" and
    s3: "send_atecc_cmd b4 ATECC_CMD_READ 0x00 0x0003 None 0 = (Inr u3, b5)" and
    r3: "receive_atecc_response b5 True 4 True = (Inr p3, b6)" and
    v: "serial = (store (store (replicate ATECC_SERIAL_NUMBER_SIZE 0) 0 p1) 4 p2)
           [8 := store (replicate 4 0) 0 p3 ! 0]"
    unfolding read_atecc_serial_number_def Let_def
    by (auto split: if_splits prod.splits sum.splits)
  have b1: "b1 = b\<lparr>trace := trace b @ [I2C_Write (ATECC_WORDADDR_CMD #
             command_frame ATECC_CMD_READ 0x00 0x0000 [] 0)]\<rparr>"
    using s1 unfolding sp by simp
  have p1: "p1 = read_payload4 b 1" and b2: "b2 = b1\<lparr>trace := trace b1 @ [I2C_Read 7]\<rparr>"
    using receive4_Inr [OF r1] unfolding b1 by (simp_all add: read_payload4_after eval_nat_numeral)
  have b3: "b3 = b2\<lparr>trace := trace b2 @ [I2C_Write (ATECC_WORDADDR_CMD #
             command_frame ATECC_CMD_READ 0x00 0x0002 [] 0)]\<rparr>"
    using s2 unfolding sp by simp
  have p2: "p2 = read_payload4 b 3" and b4: "b4 = b3\<lparr>trace := trace b3 @ [I2C_Read 7]\<rparr>"
    using receive4_Inr [OF r2] unfolding b3 b2 b1 by (simp_all add: read_payload4_after eval_nat_numeral)
  have b5: "b5 = b4\<lparr>trace := trace b4 @ [I2C_Write (ATECC_WORDADDR_CMD #
             command_frame ATECC_CMD_READ 0x00 0x0003 [] 0)]\<rparr>"
    using s3 unfolding sp by simp
  have p3: "p3 = read_payload4 b 5"
    using receive4_Inr [OF r3] unfolding b5 b4 b3 b2 b1
    by (simp add: read_payload4_after eval_nat_numeral)
  show ?thesis
    unfolding v p1 p2 p3 by (rule serial_assembly) (rule read_payload4_length)+
qed


text \<open>
  Claim C10. Whatever the bus answers, \<open>read_atecc_serial_number\<close> leaves the caller's
  \<open>serial_number\<close> buffer as it found it. On success the identifier it has assembled (and
  printed) is the two 4-byte payloads of the first two reads followed by the first byte
  of the third; it stays in the local array.
\<close>

theorem read_atecc_serial_number_output_untouched:
  "fst (snd (read_atecc_serial_number b serial_number)) = serial_number
   \<and> (\<forall>serial. fst (read_atecc_serial_number b serial_number) = Inr serial \<longrightarrow>
         serial = read_payload4 b 1 @ read_payload4 b 3 @ take 1 (read_payload4 b 5))"
  using read_serial_buffer_unchanged read_serial_assembled by blast

theorem read_atecc_serial_number_output_untouched_witness:
  "fst (read_atecc_serial_number
          (script [ok_reply [], ok_reply [0x07, 0x01, 0x23, 0xBF, 0xBD, 0x00, 0x00],
                   ok_reply [], ok_reply [0x07, 0xEA, 0x18, 0x58, 0x23, 0x00, 0x00],
                   ok_reply [], ok_reply [0x07, 0xEE, 0x61, 0x5D, 0x00, 0x00, 0x00]])
          (Some [0, 0, 0, 0, 0, 0, 0, 0, 0]))
     = Inr [0x01, 0x23, 0xBF, 0xBD, 0xEA, 0x18, 0x58, 0x23, 0xEE]
   \<and> fst (snd (read_atecc_serial_number
          (script [ok_reply [], ok_reply [0x07, 0x01, 0x23, 0xBF, 0xBD, 0x00, 0x00],
                   ok_reply [], ok_reply [0x07, 0xEA, 0x18, 0x58, 0x23, 0x00, 0x00],
                   ok_reply [], ok_reply [0x07, 0xEE, 0x61, 0x5D, 0x00, 0x00, 0x00]])
          (Some [0, 0, 0, 0, 0, 0, 0, 0, 0])))
     = Some [0, 0, 0, 0, 0, 0, 0, 0, 0]"
proof -
  let ?b = "script [ok_reply [], ok_reply [0x07, 0x01, 0x23, 0xBF, 0xBD, 0x00, 0x00],
                    ok_reply [], ok_reply [0x07, 0xEA, 0x18, 0x58, 0x23, 0x00, 0x00],
                    ok_reply [], ok_reply [0x07, 0xEE, 0x61, 0x5D, 0x00, 0x00, 0x00]]"
  let ?out = "Some [0, 0, 0, 0, 0, 0, 0, 0, 0 :: u8]"
  note t = read_atecc_serial_number_output_untouched [of ?b ?out]
  have a: "fst (read_atecc_serial_number ?b ?out)
           = Inr [0x01, 0x23, 0xBF, 0xBD, 0xEA, 0x18, 0x58, 0x23, 0xEE]"
    by code_simp
  have b: "fst (snd (read_atecc_serial_number ?b ?out)) = ?out"
    using t by (rule conjunct1)
  show ?thesis using a b by simp
qed

section \<open>Properties of the range mapping\<close>

lemma shift_or_byte: "push_bit 8 (v::u64) OR ucast (b::u8) = v * 256 + of_nat (unat b)"
proof -
  have "\<And>n. \<not> bit (push_bit 8 v) n \<or> \<not> bit (ucast b :: u64) n"
    by (auto simp add: bit_push_bit_iff bit_ucast_iff dest: bit_imp_le_length)
  then have "push_bit 8 v + (ucast b :: u64) = push_bit 8 v OR ucast b"
    by (rule disjunctive_add)
  then show ?thesis by (simp add: push_bit_eq_mult)
qed

lemma random_value_be64:
  "foldl (\<lambda>random_value i. push_bit 8 random_value OR ucast (bytes ! i)) (0::u64) [0..<8]
   = of_nat (be64_spec bytes)"
  unfolding upt8 be64_spec_def
  by (simp add: shift_or_byte algebra_simps del: of_nat_unat)

lemma be64_spec_bound: "be64_spec bytes < 2 ^ 64"
proof -
  have b: "\<And>i. unat (bytes ! i) < 256"
    using unsigned_less [where 'b = 8 and 'a = nat] by simp
  show ?thesis
    unfolding be64_spec_def upt8
    using b [of 0] b [of 1] b [of 2] b [of 3] b [of 4] b [of 5] b [of 6] b [of 7]
    by simp
qed

lemma map_random_to_range_spec:
  assumes le: "minv \<le> maxv" and nz: "maxv - minv + 1 \<noteq> 0"
  shows "map_random_to_range bytes minv maxv
           = Some (of_nat (range_map_spec bytes (unat minv) (unat maxv)))"
    and "unat minv \<le> range_map_spec bytes (unat minv) (unat maxv)"
    and "range_map_spec bytes (unat minv) (unat maxv) \<le> unat maxv"
proof -
  define V where "V = be64_spec bytes"
  define M where "M = unat maxv - unat minv + 1"
  have mle: "unat minv \<le> unat maxv" using le by (simp add: word_le_nat_alt)
  have um: "unat (maxv - minv + 1) = M"
    using unatSuc [of "maxv - minv"] nz unat_sub [OF le] by (simp add: M_def add.commute)
  have uv: "unat (of_nat V :: u64) = V"
    using be64_spec_bound [of bytes] by (simp add: V_def unat_of_nat)
  have ur: "unat ((of_nat V :: u64) mod (maxv - minv + 1)) = V mod M"
    by (simp only: unat_mod uv um)
  have lt: "V mod M < M" by (simp add: M_def)
  have fit: "unat minv + V mod M \<le> unat maxv" using lt mle unfolding M_def by linarith
  have "unat maxv < 2 ^ 64" using unsigned_less [of maxv, where 'a = nat] by simp
  then have "unat minv + unat ((of_nat V :: u64) mod (maxv - minv + 1)) < 2 ^ LENGTH(64)"
    using fit ur by simp
  then have ures: "unat (minv + (of_nat V :: u64) mod (maxv - minv + 1)) = unat minv + V mod M"
    using ur by (simp only: unat_add_lem [THEN iffD1])
  have res: "minv + (of_nat V :: u64) mod (maxv - minv + 1) = of_nat (unat minv + V mod M)"
  proof -
    have "minv + (of_nat V :: u64) mod (maxv - minv + 1)
          = of_nat (unat (minv + (of_nat V :: u64) mod (maxv - minv + 1)))" by simp
    then show ?thesis by (simp only: ures)
  qed
  show "map_random_to_range bytes minv maxv
           = Some (of_nat (range_map_spec bytes (unat minv) (unat maxv)))"
    unfolding map_random_to_range_def Let_def random_value_be64 range_map_spec_def
    using nz res by (simp add: V_def M_def)
  show "unat minv \<le> range_map_spec bytes (unat minv) (unat maxv)"
    by (simp add: range_map_spec_def)
  show "range_map_spec bytes (unat minv) (unat maxv) \<le> unat maxv"
    using fit by (simp add: range_map_spec_def V_def M_def)
qed


lemma map_random_to_range_bounds:
  assumes le: "minv \<le> maxv" and nz: "maxv - minv + 1 \<noteq> 0"
    and v: "map_random_to_range bytes minv maxv = Some v"
  shows "minv \<le> v \<and> v \<le> maxv"
proof -
  let ?n = "range_map_spec bytes (unat minv) (unat maxv)"
  note s = map_random_to_range_spec [OF le nz, of bytes]
  have "unat maxv < 2 ^ 64" using unsigned_less [of maxv, where 'a = nat] by simp
  then have "?n < 2 ^ 64" using s(3) by simp
  then have u: "unat (of_nat ?n :: u64) = ?n" by (simp add: unat_of_nat)
  have "v = of_nat ?n" using v s(1) by simp
  then show ?thesis using u s(2,3) by (simp add: word_le_nat_alt)
qed

lemma genrate_skips_first_byte:
  "fst (genrate_random_number_in_range
          (script [ok_reply [], ok_reply (0x23 # 0x01 # replicate 33 0x00)])
          0 0xFFFFFFFFFFFFFFFE) = Inr 0"
proof -
  let ?B = "script [ok_reply [], ok_reply (0x23 # 0x01 # replicate 33 0x00)]"
  have "fst (send_atecc_cmd ?B ATECC_CMD_RANDOM 0x00 0x0000 None 0) = Inr ()"
    by code_simp
  then obtain b1 where s: "send_atecc_cmd ?B ATECC_CMD_RANDOM 0x00 0x0000 None 0 = (Inr (), b1)"
    by (cases "send_atecc_cmd ?B ATECC_CMD_RANDOM 0x00 0x0000 None 0") auto
  have "fst (receive_atecc_response (snd (send_atecc_cmd ?B ATECC_CMD_RANDOM 0x00 0x0000 None 0))
               True 32 True) = Inr (0x01 # replicate 31 0)"
    by code_simp
  then obtain b2 where r: "receive_atecc_response b1 True 32 True = (Inr (0x01 # replicate 31 0), b2)"
    unfolding s by (cases "receive_atecc_response b1 True 32 True") auto
  have m: "map_random_to_range (drop 1 (store (replicate 32 0) 0 (0x01 # replicate 31 0)))
             0 0xFFFFFFFFFFFFFFFE = Some 0"
    by (simp add: map_random_to_range_def upt8 store_def)
  show ?thesis
    unfolding genrate_random_number_in_range_def Let_def s using m by (simp add: r)
qed

text \<open>
  Claim C6, as stated, fails in two ways. With \<open>min = 10\<close> and \<open>max = 5\<close> the size of
  the range, \<open>max - min + 1\<close>, is nonzero in 64-bit arithmetic, and the mapping of the bytes
  FF FF FF FF FF FF FF F6 wraps around to 0, which is below \<open>min\<close>. And the operation does
  not hand the first eight returned bytes to the mapping: for a response whose payload is
  01 followed by zeros it reports 0, where the first eight bytes read big-endian give
  \<open>0x0100000000000000\<close>.
\<close>

theorem map_random_to_range_outside:
  "(5::u64) - 10 + 1 \<noteq> 0
   \<and> map_random_to_range [0xFF, 0xFF, 0xFF, 0xFF, 0xFF, 0xFF, 0xFF, 0xF6] 10 5 = Some 0
   \<and> \<not> (10::u64) \<le> 0
   \<and> fst (genrate_random_number_in_range
            (script [ok_reply [], ok_reply (0x23 # 0x01 # replicate 33 0x00)])
            0 0xFFFFFFFFFFFFFFFE) = Inr 0
   \<and> range_map_spec [0x01, 0x00, 0x00, 0x00, 0x00, 0x00, 0x00, 0x00] 0 0xFFFFFFFFFFFFFFFE
       = 0x0100000000000000"
proof (intro conjI)
  show "(5::u64) - 10 + 1 \<noteq> 0" by simp
  show "map_random_to_range [0xFF, 0xFF, 0xFF, 0xFF, 0xFF, 0xFF, 0xFF, 0xF6] 10 5 = Some 0"
    by (simp add: map_random_to_range_def upt8)
  show "\<not> (10::u64) \<le> 0" by simp
  show "fst (genrate_random_number_in_range
            (script [ok_reply [], ok_reply (0x23 # 0x01 # replicate 33 0x00)])
            0 0xFFFFFFFFFFFFFFFE) = Inr 0"
    by (rule genrate_skips_first_byte)
  show "range_map_spec [0x01, 0x00, 0x00, 0x00, 0x00, 0x00, 0x00, 0x00] 0 0xFFFFFFFFFFFFFFFE
       = 0x0100000000000000"
    by (simp add: range_map_spec_def be64_spec_def upt8)
qed

text \<open>
  Claim C6, amended. \<open>map_random_to_range\<close> reads the eight bytes it is handed as a
  big-endian 64-bit integer \<open>v\<close> and returns \<open>min + (v mod (max - min + 1))\<close>; for every
  \<open>min \<le> max\<close> with \<open>max - min + 1\<close> nonzero the value equals that expression over the
  integers and lies in \<open>[min, max]\<close>, and so does every value that
  \<open>genrate_random_number_in_range\<close> reports.
\<close>

theorem map_random_to_range_in_range:
  assumes le: "minv \<le> maxv" and nz: "maxv - minv + 1 \<noteq> 0"
  shows "map_random_to_range bytes minv maxv
           = Some (of_nat (range_map_spec bytes (unat minv) (unat maxv)))
       \<and> unat minv \<le> range_map_spec bytes (unat minv) (unat maxv)
       \<and> range_map_spec bytes (unat minv) (unat maxv) \<le> unat maxv
       \<and> (\<forall>v. map_random_to_range bytes minv maxv = Some v \<longrightarrow> minv \<le> v \<and> v \<le> maxv)
       \<and> (\<forall>v. fst (genrate_random_number_in_range b minv maxv) = Inr v
              \<longrightarrow> minv \<le> v \<and> v \<le> maxv)"
proof -
  have g: "\<forall>v. fst (genrate_random_number_in_range b minv maxv) = Inr v
              \<longrightarrow> minv \<le> v \<and> v \<le> maxv"
  proof (intro allI impI)
    fix v assume "fst (genrate_random_number_in_range b minv maxv) = Inr v"
    then obtain resp where "map_random_to_range resp minv maxv = Some v"
      unfolding genrate_random_number_in_range_def Let_def
      by (auto split: prod.splits sum.splits option.splits)
    then show "minv \<le> v \<and> v \<le> maxv" by (rule map_random_to_range_bounds [OF le nz])
  qed
  show ?thesis
    using map_random_to_range_spec [OF le nz, of bytes]
      map_random_to_range_bounds [OF le nz, of bytes] g
    by blast
qed


theorem map_random_to_range_in_range_witness:
  "map_random_to_range [0x7F, 0x1C, 0xAF, 0xCB, 0x23, 0xFF, 0x9B, 0x37] 0 10000000
     = Some 3110779
   \<and> range_map_spec [0x7F, 0x1C, 0xAF, 0xCB, 0x23, 0xFF, 0x9B, 0x37] 0 10000000 = 3110779
   \<and> (0::u64) \<le> 3110779 \<and> (3110779::u64) \<le> 10000000"
proof -
  let ?bs = "[0x7F, 0x1C, 0xAF, 0xCB, 0x23, 0xFF, 0x9B, 0x37] :: u8 list"
  have le: "(0::u64) \<le> 10000000" by simp
  have nz: "(10000000::u64) - 0 + 1 \<noteq> 0" by simp
  note t = map_random_to_range_in_range [OF le nz, of ?bs]
  have n: "range_map_spec ?bs (unat (0::u64)) (unat (10000000::u64)) = 3110779"
    by (simp add: range_map_spec_def be64_spec_def upt8)
  have a: "map_random_to_range ?bs 0 10000000 = Some 3110779"
    using t unfolding n by simp
  have b: "(0::u64) \<le> 3110779 \<and> (3110779::u64) \<le> 10000000"
    using t a by blast
  have c: "range_map_spec ?bs 0 10000000 = 3110779" using n by simp
  show ?thesis using a b c by simp
qed

section \<open>Transport failures\<close>

lemma send_transport:
  "(fst (send_atecc_cmd b opcode param1 param2 data data_len) = Inl (TransportFailed Wr))
     = (\<not> (unat data_len > ATECC_CMD_SIZE - 7 \<or> (data_len \<noteq> 0 \<and> data = None))
        \<and> fatal_unless_transient (reply_at b 0))"
proof (cases "unat data_len > ATECC_CMD_SIZE - 7 \<or> (data_len > 0 \<and> data = None)")
  case True
  then have "unat data_len > ATECC_CMD_SIZE - 7 \<or> (data_len \<noteq> 0 \<and> data = None)"
    by (auto simp add: word_greater_zero_iff)
  then show ?thesis using send_atecc_cmd_invalid [OF True] by simp
next
  case False
  then have size: "unat data_len \<le> ATECC_CMD_SIZE - 7" and ptr: "data_len > 0 \<Longrightarrow> data \<noteq> None"
    by auto
  have "\<not> (unat data_len > ATECC_CMD_SIZE - 7 \<or> (data_len \<noteq> 0 \<and> data = None))"
    using False by (auto simp add: word_greater_zero_iff)
  then show ?thesis using send_atecc_cmd_valid [OF size ptr] by simp
qed

lemma receive_transport:
  "(fst (receive_atecc_response b buffer len full_response) = Inl (TransportFailed Rd))
     = (buffer \<and> len \<noteq> 0 \<and> fatal_unless_transient (reply_at b 0))"
  unfolding receive_atecc_response_def ioctl_def Let_def fatal_unless_transient_def reply_at_def
  by (simp split: if_splits)

lemma wake_transport:
  "(fst (atecc_wake b) = Inl (TransportFailed Wr)) = fatal_unless_transient (reply_at b 0)"
  "(fst (atecc_wake b) = Inl (TransportFailed Rd))
     = (\<not> fatal_unless_transient (reply_at b 0) \<and> fatal_always (reply_at b 1))"
  unfolding atecc_wake_def ioctl_def Let_def fatal_unless_transient_def fatal_always_def reply_at_def
  by (simp_all split: if_splits)

lemma sleep_transport:
  "(fst (atecc_sleep b) = Inl (TransportFailed Wr)) = fatal_always (reply_at b 0)"
  unfolding atecc_sleep_def ioctl_def Let_def fatal_always_def reply_at_def
  by (simp split: if_splits)

lemma aes_transport:
  "(fst (receive_aes_response b fd output_data) = Inl (TransportFailed Rd))
     = (0 \<le> fd \<and> output_data \<and> fatal_unless_transient (reply_at b 0))"
  unfolding receive_aes_response_def ioctl_def Let_def fatal_unless_transient_def reply_at_def
  by (auto split: if_splits)

lemma lock_transport:
  "(fst (check_lock_status b) = Inl (TransportFailed Rd))
     = (\<not> fatal_unless_transient (reply_at b 0) \<and> fatal_unless_transient (reply_at b 1))"
  unfolding check_lock_status_fst by (simp split: if_splits)

lemma sha_transport:
  assumes "length (bytes_at data) = n"
    and "\<forall>j \<le> n div 64 + 1. \<not> fatal_unless_transient (reply_at b j)"
  shows "(fst (compute_sha256 b data n True) = Inl (TransportFailed Rd))
         = fatal_always (reply_at b (n div 64 + 2))"
  unfolding compute_sha256_run [OF assms] Let_def fatal_always_def
  by (simp split: if_splits)


text \<open>
  Claim C8, as stated, fails: not every bus transaction lets \<open>EIO\<close> and \<open>EREMOTEIO\<close> pass.
  The write of \<open>atecc_sleep\<close>, the read of \<open>atecc_wake\<close> and the digest read of
  \<open>compute_sha256\<close> give up on them as on any other failure.
\<close>

theorem transient_errors_not_tolerated_everywhere:
  "fst (atecc_sleep (script [failed_reply EIO])) = Inl (TransportFailed Wr)
   \<and> fst (atecc_wake (script [ok_reply [], failed_reply EREMOTEIO])) = Inl (TransportFailed Rd)
   \<and> fst (compute_sha256 (script [ok_reply [], ok_reply [], failed_reply EIO]) (Some []) 0 True)
       = Inl (TransportFailed Rd)"
  by code_simp

text \<open>
  Claim C8, amended. The write of \<open>send_atecc_cmd\<close>, the read of
  \<open>receive_atecc_response\<close>, the write of \<open>atecc_wake\<close>, the cipher read and the
  lock-status read fail as a transport error exactly when the transaction fails with an
  \<open>errno\<close> other than \<open>EIO\<close> and \<open>EREMOTEIO\<close>; with one of these two the operation goes
  on. The read of \<open>atecc_wake\<close>, the write of \<open>atecc_sleep\<close> and the digest read of
  \<open>compute_sha256\<close> fail as a transport error on every failing transaction, those two
  codes included.
\<close>

theorem transport_failure_rules:
  "(fst (send_atecc_cmd b opcode param1 param2 data data_len) = Inl (TransportFailed Wr))
     = (\<not> (unat data_len > ATECC_CMD_SIZE - 7 \<or> (data_len \<noteq> 0 \<and> data = None))
        \<and> fatal_unless_transient (reply_at b 0))
   \<and> (fst (receive_atecc_response b buffer len full_response) = Inl (TransportFailed Rd))
     = (buffer \<and> len \<noteq> 0 \<and> fatal_unless_transient (reply_at b 0))
   \<and> (fst (atecc_wake b) = Inl (TransportFailed Wr)) = fatal_unless_transient (reply_at b 0)
   \<and> (fst (receive_aes_response b fd output_data) = Inl (TransportFailed Rd))
     = (0 \<le> fd \<and> output_data \<and> fatal_unless_transient (reply_at b 0))
   \<and> (fst (check_lock_status b) = Inl (TransportFailed Rd))
     = (\<not> fatal_unless_transient (reply_at b 0) \<and> fatal_unless_transient (reply_at b 1))
   \<and> (fst (atecc_wake b) = Inl (TransportFailed Rd))
     = (\<not> fatal_unless_transient (reply_at b 0) \<and> fatal_always (reply_at b 1))
   \<and> (fst (atecc_sleep b) = Inl (TransportFailed Wr)) = fatal_always (reply_at b 0)
   \<and> (length (bytes_at input) = n
        \<and> (\<forall>j \<le> n div 64 + 1. \<not> fatal_unless_transient (reply_at b j))
        \<longrightarrow> (fst (compute_sha256 b input n True) = Inl (TransportFailed Rd))
            = fatal_always (reply_at b (n div 64 + 2)))
   \<and> fatal_unless_transient (failed_reply e) = (e \<noteq> EIO \<and> e \<noteq> EREMOTEIO)
   \<and> fatal_always (failed_reply e)"
proof -
  have sha: "length (bytes_at input) = n
        \<and> (\<forall>j \<le> n div 64 + 1. \<not> fatal_unless_transient (reply_at b j))
        \<longrightarrow> (fst (compute_sha256 b input n True) = Inl (TransportFailed Rd))
            = fatal_always (reply_at b (n div 64 + 2))"
    using sha_transport by blast
  have f: "fatal_unless_transient (failed_reply e) = (e \<noteq> EIO \<and> e \<noteq> EREMOTEIO)"
          "fatal_always (failed_reply e)"
    by (simp_all add: fatal_unless_transient_def fatal_always_def failed_reply_def)
  show ?thesis
    by (intro conjI send_transport receive_transport wake_transport aes_transport
          lock_transport sleep_transport sha f)
qed

theorem transport_failure_rules_witness:
  "fst (send_atecc_cmd (script [failed_reply EIO]) ATECC_CMD_READ 0 0 None 0)
     \<noteq> Inl (TransportFailed Wr)
   \<and> fst (send_atecc_cmd (script [failed_reply EINVAL]) ATECC_CMD_READ 0 0 None 0)
     = Inl (TransportFailed Wr)
   \<and> fst (receive_atecc_response (script [failed_reply EREMOTEIO]) True 4 True)
     \<noteq> Inl (TransportFailed Rd)
   \<and> fst (atecc_sleep (script [failed_reply EREMOTEIO])) = Inl (TransportFailed Wr)
   \<and> fst (atecc_wake (script [failed_reply EIO, failed_reply EIO])) = Inl (TransportFailed Rd)
   \<and> fst (compute_sha256 (script [failed_reply EIO, failed_reply EREMOTEIO, failed_reply EIO])
            (Some []) 0 True) = Inl (TransportFailed Rd)"
proof -
  have r: "\<And>rs j. reply_at (script rs) j = (if j < length rs then rs ! j else ok_reply [])"
    by (simp add: reply_at_def script_def)
  have f: "\<And>e. fatal_unless_transient (failed_reply e) = (e \<noteq> EIO \<and> e \<noteq> EREMOTEIO)"
          "\<And>e. fatal_always (failed_reply e)"
    by (simp_all add: fatal_unless_transient_def fatal_always_def failed_reply_def)
  have e: "EINVAL \<noteq> EIO" "EINVAL \<noteq> EREMOTEIO" "EIO \<noteq> EREMOTEIO"
    by (simp_all add: EINVAL_def EIO_def EREMOTEIO_def)
  note t = transport_failure_rules
  have a: "fst (send_atecc_cmd (script [failed_reply EIO]) ATECC_CMD_READ 0 0 None 0)
     \<noteq> Inl (TransportFailed Wr)"
    using t [where b = "script [failed_reply EIO]" and opcode = ATECC_CMD_READ and ?param1.0 = 0
        and ?param2.0 = 0 and data = None and data_len = 0]
    by (simp add: r f)
  have b: "fst (send_atecc_cmd (script [failed_reply EINVAL]) ATECC_CMD_READ 0 0 None 0)
     = Inl (TransportFailed Wr)"
    using t [where b = "script [failed_reply EINVAL]" and opcode = ATECC_CMD_READ
        and ?param1.0 = 0 and ?param2.0 = 0 and data = None and data_len = 0]
    by (simp add: r f e)
  have c: "fst (receive_atecc_response (script [failed_reply EREMOTEIO]) True 4 True)
     \<noteq> Inl (TransportFailed Rd)"
    using t [where b = "script [failed_reply EREMOTEIO]" and buffer = True and len = 4
        and full_response = True]
    by (simp add: r f)
  have d: "fst (atecc_sleep (script [failed_reply EREMOTEIO])) = Inl (TransportFailed Wr)"
    using t [where b = "script [failed_reply EREMOTEIO]"] by (simp add: r f)
  have g: "fst (atecc_wake (script [failed_reply EIO, failed_reply EIO])) = Inl (TransportFailed Rd)"
    using t [where b = "script [failed_reply EIO, failed_reply EIO]"] by (simp add: r f)
  let ?S = "script [failed_reply EIO, failed_reply EREMOTEIO, failed_reply EIO]"
  have nf: "\<forall>j \<le> 0 div 64 + 1. \<not> fatal_unless_transient (reply_at ?S j)"
  proof (intro allI impI)
    fix j :: nat assume "j \<le> 0 div 64 + 1"
    then have "j = 0 \<or> j = 1" by auto
    then show "\<not> fatal_unless_transient (reply_at ?S j)" by (auto simp add: r f)
  qed
  have l: "length (bytes_at (Some ([] :: u8 list))) = 0" by (simp add: bytes_at_def)
  have h: "fst (compute_sha256 ?S (Some []) 0 True) = Inl (TransportFailed Rd)"
    using t [where b = ?S and input = "Some []" and n = 0] nf l by (simp add: r f)
  show ?thesis using a b c d g h by simp
qed

end
